theory Spec2Isabelle
  imports Main "HOL-Library.Word"
begin

unbundle bit_operations_syntax

section \<open>Data model\<close>

text \<open>
  Go's \<open>byte\<close> and \<open>uint8\<close> are 8-bit words, a \<open>[]byte\<close> is a list of them, and Go's
  \<open>int\<close> is modelled by \<open>int\<close>; a Go slice is taken with its capacity equal to
  its length. Every panic and every returned error of the source is a value of \<open>error\<close>.
\<close>

type_synonym byte = "8 word"

datatype error =
    ErrInputTooLarge
  | ErrDictTooLarge
  | ErrNoBackref int
  | ErrWordsDoNotFit
  | ErrNotEnoughRoom
  | ErrNotPowerOfTwo
  | ErrNotEnoughBytes
  | ErrEOF
  | PanicCannotEncodeSymbol
  | PanicIndexOutOfRange
  | PanicSliceBounds
  | PanicDivideByZero
  | PanicMakeSlice
  | PanicFillBytes

text \<open>
  The constants \<open>SymbolDict\<close>, \<open>SymbolShort\<close>, \<open>SymbolLong\<close>, \<open>Version\<close>,
  \<open>MaxInputSize\<close> and \<open>MaxDictSize\<close> are used by \<open>lzss/compress.go\<close> and declared
  in a file that is not among the sources: the model takes them as a parameter.
\<close>

record constants =
  SymbolDict :: byte
  SymbolShort :: byte
  SymbolLong :: byte
  Version :: byte
  MaxInputSize :: int
  MaxDictSize :: int

definition distinctSymbols :: "constants \<Rightarrow> bool" where
  "distinctSymbols K =
     (SymbolDict K \<noteq> SymbolShort K \<and> SymbolDict K \<noteq> SymbolLong K \<and> SymbolShort K \<noteq> SymbolLong K)"

text \<open>The values used for the concrete runs below.\<close>

definition K0 :: constants where
  "K0 = \<lparr>SymbolDict = 0xFF, SymbolShort = 0xFE, SymbolLong = 0xFD, Version = 0,
         MaxInputSize = 2097152, MaxDictSize = 4194304\<rparr>"

section \<open>Dictionary augmentation (lzss/compress.go, AugmentDict)\<close>

text \<open>
  The \<open>range\<close> loop of \<open>AugmentDict\<close>: \<open>found\<close> collects one bit per escape byte seen;
  the result is \<open>True\<close> when the loop leaves through \<open>return dict\<close> (\<open>found == mask\<close>)
  and \<open>False\<close> when it runs off the end of the dictionary.
\<close>

fun AugmentDict_scan :: "constants \<Rightarrow> 8 word \<Rightarrow> byte list \<Rightarrow> bool" where
  "AugmentDict_scan K found [] = False"
| "AugmentDict_scan K found (b # bs) =
     (if b = SymbolDict K then
        (if found OR 1 = 7 then True else AugmentDict_scan K (found OR 1) bs)
      else if b = SymbolShort K then
        (if found OR 2 = 7 then True else AugmentDict_scan K (found OR 2) bs)
      else if b = SymbolLong K then
        (if found OR 4 = 7 then True else AugmentDict_scan K (found OR 4) bs)
      else AugmentDict_scan K found bs)"

definition AugmentDict :: "constants \<Rightarrow> byte list \<Rightarrow> byte list" where
  "AugmentDict K dict =
     (if AugmentDict_scan K 0 dict then dict
      else dict @ [SymbolDict K, SymbolShort K, SymbolLong K])"

section \<open>Bit streams (the library \<open>bitio\<close> over a byte buffer)\<close>

text \<open>
  \<open>bitio\<close> reads and writes most-significant bit first. A writer is the list of the bits
  written so far; writing to a \<open>bytes.Buffer\<close> cannot fail, so the writer's \<open>TryError\<close>
  stays \<open>nil\<close> and is not part of the state. \<open>Close\<close> pads the last byte with zero bits.
\<close>

definition bitsOf :: "int \<Rightarrow> nat \<Rightarrow> bool list" where
  "bitsOf v n = map (\<lambda>k. bit v k) (rev [0..<n])"

definition valOf :: "bool list \<Rightarrow> int" where
  "valOf bs = foldl (\<lambda>acc b. 2 * acc + (if b then 1 else 0)) 0 bs"

type_synonym bitwriter = "bool list"

definition TryWriteBits :: "bitwriter \<Rightarrow> int \<Rightarrow> nat \<Rightarrow> bitwriter" where
  "TryWriteBits w v n = w @ bitsOf v n"

definition TryWriteByte :: "bitwriter \<Rightarrow> byte \<Rightarrow> bitwriter" where
  "TryWriteByte w b = w @ bitsOf (uint b) 8"

definition Close :: "bitwriter \<Rightarrow> bitwriter" where
  "Close w = w @ replicate ((8 - length w mod 8) mod 8) False"

fun bytesOf :: "bool list \<Rightarrow> byte list" where
  "bytesOf bs = (if length bs < 8 then [] else word_of_int (valOf (take 8 bs)) # bytesOf (drop 8 bs))"

declare bytesOf.simps [simp del]

definition bitsOfBytes :: "byte list \<Rightarrow> bool list" where
  "bitsOfBytes bs = concat (map (\<lambda>b. bitsOf (uint b) 8) bs)"

text \<open>
  A reader holds the bits not yet read and the sticky \<open>TryError\<close>: once a read fails,
  every later read returns zero and leaves the reader as it is. The value read is a
  \<open>uint64\<close>.
\<close>

record bitreader =
  rbits :: "bool list"
  TryError :: bool

definition NewReader :: "byte list \<Rightarrow> bitreader" where
  "NewReader bs = \<lparr>rbits = bitsOfBytes bs, TryError = False\<rparr>"

definition TryReadBits :: "bitreader \<Rightarrow> nat \<Rightarrow> int \<times> bitreader" where
  "TryReadBits r n =
     (if TryError r then (0, r)
      else if n \<le> length (rbits r)
        then (valOf (take n (rbits r)) mod 2 ^ 64, r\<lparr>rbits := drop n (rbits r)\<rparr>)
      else (0, r\<lparr>rbits := [], TryError := True\<rparr>))"

definition TryReadByte :: "bitreader \<Rightarrow> byte \<times> bitreader" where
  "TryReadByte r = (case TryReadBits r 8 of (v, r') \<Rightarrow> (word_of_int v, r'))"

text \<open>Go's slice expression \<open>xs[lo:hi]\<close> and index expression \<open>xs[i]\<close>.\<close>

definition slice :: "'a list \<Rightarrow> int \<Rightarrow> int \<Rightarrow> error + 'a list" where
  "slice xs lo hi =
     (if 0 \<le> lo \<and> lo \<le> hi \<and> hi \<le> int (length xs)
      then Inr (take (nat (hi - lo)) (drop (nat lo) xs)) else Inl PanicSliceBounds)"

definition index :: "'a list \<Rightarrow> int \<Rightarrow> error + 'a" where
  "index xs i = (if 0 \<le> i \<and> i < int (length xs) then Inr (xs ! nat i) else Inl PanicIndexOutOfRange)"

section \<open>Back-reference types and the header\<close>

record BackrefType =
  symbol :: byte
  nbBitsAddress :: "8 word"
  nbBitsLength :: "8 word"
  nbBytesBackRef :: int
  maxAddress :: int
  maxLength :: int
  dictOnly :: bool

record backref =
  address :: int
  length_br :: int
  bType :: BackrefType

text \<open>
  Modelled from the spec: \<open>newBackRefType\<close>, whose file is not among the sources.
  \<open>nbBytesBackRef\<close> is the total encoded size in bytes,
  \<open>\<lceil>(8 + nbBitsAddress + nbBitsLength) / 8\<rceil>\<close>; \<open>maxAddress = 2^nbBitsAddress\<close>;
  \<open>maxLength = 2^nbBitsLength + nbBytesBackRef - 1\<close>.
\<close>

definition newBackRefType :: "byte \<Rightarrow> 8 word \<Rightarrow> 8 word \<Rightarrow> bool \<Rightarrow> BackrefType" where
  "newBackRefType sy nba nbl d =
     (let nbBytes = (8 + uint nba + uint nbl + 7) div 8 in
      \<lparr>symbol = sy, nbBitsAddress = nba, nbBitsLength = nbl, nbBytesBackRef = nbBytes,
       maxAddress = 2 ^ unat nba, maxLength = 2 ^ unat nbl + nbBytes - 1, dictOnly = d\<rparr>)"

text \<open>\<open>bits.Len\<close> of the standard library: the number of bits needed to write \<open>n\<close>.\<close>

fun bits_Len :: "nat \<Rightarrow> nat" where
  "bits_Len n = (if n = 0 then 0 else Suc (bits_Len (n div 2)))"

declare bits_Len.simps [simp del]

definition NoCompression :: "8 word" where
  "NoCompression = 0"

text \<open>The closure \<open>wordAlign\<close> of \<open>InitBackRefTypes\<close>, in \<open>uint8\<close> arithmetic.\<close>

definition wordAlign :: "8 word \<Rightarrow> int \<Rightarrow> 8 word" where
  "wordAlign level a =
     (if level = NoCompression then word_of_int a
      else (word_of_int a + level - 1) div level * level)"

text \<open>The result is the triple \<open>(short, long, dict)\<close>.\<close>

definition InitBackRefTypes :: "constants \<Rightarrow> int \<Rightarrow> 8 word \<Rightarrow> BackrefType \<times> BackrefType \<times> BackrefType" where
  "InitBackRefTypes K dictLen level =
     (newBackRefType (SymbolShort K) (wordAlign level 14) 8 False,
      newBackRefType (SymbolLong K) (wordAlign level 19) 8 False,
      newBackRefType (SymbolDict K) (wordAlign level (int (bits_Len (nat dictLen)))) 8 True)"

text \<open>
  Modelled from the spec: the header codec, whose file is not among the sources. The header
  is two bytes, \<open>Version\<close> then \<open>Level\<close>; reading it from a bit reader fails when the two
  bytes are not there.
\<close>

record Header =
  hVersion :: byte
  hLevel :: "8 word"

definition Header_WriteTo :: "Header \<Rightarrow> byte list \<Rightarrow> byte list" where
  "Header_WriteTo h buf = buf @ [hVersion h, hLevel h]"

definition Header_ReadFrom :: "bitreader \<Rightarrow> error + (Header \<times> bitreader)" where
  "Header_ReadFrom r =
     (case TryReadByte r of (v, r1) \<Rightarrow>
      case TryReadByte r1 of (l, r2) \<Rightarrow>
        if TryError r2 then Inl ErrEOF else Inr (\<lparr>hVersion = v, hLevel = l\<rparr>, r2))"

text \<open>
  Modelled from the spec: the wire layout of one back-reference (\<open>writeTo\<close> and \<open>readFrom\<close>
  of \<open>backref\<close>, whose file is not among the sources). A field of \<open>n\<close> bits is stored
  little-endian per byte: successive 8-bit chunks, least significant first, and the
  residual high bits last. A back-reference is the escape byte of its type, then
  \<open>nbBitsLength\<close> bits carrying \<open>length - nbBytesBackRef\<close>, then \<open>nbBitsAddress\<close> bits
  carrying the absolute offset (dict) or the distance \<open>i - address\<close> minus one (short,
  long); reading adds the same amounts back.
\<close>

fun writeField :: "bitwriter \<Rightarrow> int \<Rightarrow> nat \<Rightarrow> bitwriter" where
  "writeField w v n =
     (if 8 \<le> n then writeField (TryWriteBits w (v mod 256) 8) (v div 256) (n - 8)
      else if 0 < n then TryWriteBits w v n else w)"

declare writeField.simps [simp del]

fun readField :: "bitreader \<Rightarrow> nat \<Rightarrow> int \<times> bitreader" where
  "readField r n =
     (if 8 \<le> n then
        (case TryReadBits r 8 of (lo, r1) \<Rightarrow>
         case readField r1 (n - 8) of (hi, r2) \<Rightarrow> (lo + 256 * hi, r2))
      else if 0 < n then TryReadBits r n else (0, r))"

declare readField.simps [simp del]

definition writeTo :: "backref \<Rightarrow> bitwriter \<Rightarrow> int \<Rightarrow> bitwriter" where
  "writeTo b w i =
     (let t = bType b;
          w1 = TryWriteByte w (symbol t);
          w2 = writeField w1 (length_br b - nbBytesBackRef t) (unat (nbBitsLength t));
          addrToWrite = (if dictOnly t then address b else i - address b - 1)
      in writeField w2 addrToWrite (unat (nbBitsAddress t)))"

definition readFrom :: "backref \<Rightarrow> bitreader \<Rightarrow> backref \<times> bitreader" where
  "readFrom b r =
     (let t = bType b in
      case readField r (unat (nbBitsLength t)) of (l, r1) \<Rightarrow>
      case readField r1 (unat (nbBitsAddress t)) of (a, r2) \<Rightarrow>
        (b\<lparr>length_br := l + nbBytesBackRef t,
           address := (if dictOnly t then a else a + 1)\<rparr>, r2))"

text \<open>
  Modelled from the spec: \<open>savings\<close> of \<open>backref\<close>, whose file is not among the sources:
  \<open>savings = length - nbBytesBackRef\<close>.
\<close>

definition savings :: "backref \<Rightarrow> int" where
  "savings b = length_br b - nbBytesBackRef (bType b)"

section \<open>The suffix index\<close>

text \<open>
  \<open>LookupLongest\<close> of the package \<open>suffixarray\<close> is not among the sources. The compressor
  takes it as a parameter \<open>lk\<close>: \<open>lk data pattern minLen maxLen lo hi\<close> is the call
  \<open>LookupLongest(pattern, minLen, maxLen, lo, hi)\<close> on the index built over \<open>data\<close>.
\<close>

type_synonym lookup = "byte list \<Rightarrow> byte list \<Rightarrow> int \<Rightarrow> int \<Rightarrow> int \<Rightarrow> int \<Rightarrow> int \<times> int"

fun matchLen :: "byte list \<Rightarrow> byte list \<Rightarrow> nat" where
  "matchLen (x # xs) (y # ys) = (if x = y then Suc (matchLen xs ys) else 0)"
| "matchLen _ _ = 0"

text \<open>
  Modelled from the spec: \<open>LookupLongest\<close> returns the longest occurrence of a prefix of
  \<open>pattern\<close> of length in \<open>[minLen, maxLen]\<close> whose start offset \<open>o\<close> satisfies
  \<open>lo \<le> o < hi\<close>, and \<open>(-1, -1)\<close> when none exists. Among several longest occurrences
  (the spec allows any deterministic choice) this one returns the first.
\<close>

definition LookupLongest :: lookup where
  "LookupLongest data pattern minLen maxLen lo hi =
     (let cands = map (\<lambda>off. (off, min (int (matchLen (drop (nat off) data) pattern)) maxLen))
                      [max lo 0 .. min hi (int (length data)) - 1];
          good = filter (\<lambda>(off, l). minLen \<le> l) cands
      in foldl (\<lambda>(bo, bl) (off, l). if bl < l then (off, l) else (bo, bl)) (-1, -1) good)"

section \<open>The compressor (lzss/compress.go)\<close>

text \<open>
  Of the fields of \<open>Compressor\<close>, the dictionary and the level outlive a call of
  \<open>Compress\<close>; the buffer and the bit writer are reset by each call and are local to the
  model of \<open>Compress\<close>; the two suffix indexes are the parameter \<open>lk\<close> applied to the
  input and to the dictionary.
\<close>

record Compressor =
  dictData :: "byte list"
  level :: "8 word"

definition bitLen_lzss :: int where
  "bitLen_lzss = 16"

definition NewCompressor :: "constants \<Rightarrow> byte list \<Rightarrow> 8 word \<Rightarrow> error + Compressor" where
  "NewCompressor K dict lvl =
     (let d = AugmentDict K dict in
      if int (length d) > MaxDictSize K then Inl ErrDictTooLarge
      else Inr \<lparr>dictData = d, level = lvl\<rparr>)"

definition canEncodeSymbol :: "constants \<Rightarrow> byte \<Rightarrow> bool" where
  "canEncodeSymbol K b = (b \<noteq> SymbolDict K \<and> b \<noteq> SymbolShort K \<and> b \<noteq> SymbolLong K)"

definition writeByte :: "constants \<Rightarrow> bitwriter \<Rightarrow> byte \<Rightarrow> error + bitwriter" where
  "writeByte K w b =
     (if \<not> canEncodeSymbol K b then Inl PanicCannotEncodeSymbol else Inr (TryWriteByte w b))"

definition findBackRef :: "lookup \<Rightarrow> Compressor \<Rightarrow> byte list \<Rightarrow> int \<Rightarrow> BackrefType \<Rightarrow> int \<Rightarrow> error + (int \<times> int)" where
  "findBackRef lk c data i t minLength0 =
     (let minLength = (if minLength0 = -1 then nbBytesBackRef t else minLength0) in
      if i + minLength > int (length data) then Inr (-1, -1)
      else
        let windowStart = max 0 (i - maxAddress t);
            maxRefLen = (if i + maxLength t > int (length data) then int (length data) - i
                         else maxLength t)
        in if minLength > maxRefLen then Inr (-1, -1)
           else case slice data i (i + maxRefLen) of
                  Inl e \<Rightarrow> Inl e
                | Inr pat \<Rightarrow>
                    if dictOnly t
                    then Inr (lk (dictData c) pat minLength maxRefLen 0 (int (length (dictData c))))
                    else Inr (lk data pat minLength maxRefLen windowStart i))"

text \<open>
  The closures \<open>fillBackrefs\<close> and \<open>bestBackref\<close> of \<open>Compress\<close> share the variables
  \<open>bDict\<close>, \<open>bShort\<close>, \<open>bLong\<close>: \<open>fillBackrefs\<close> returns its boolean with their new
  values, in this order, and \<open>bestBackref\<close> takes them. The types come as the triple
  \<open>(short, long, dict)\<close> of \<open>InitBackRefTypes\<close>.
\<close>

definition fillBackrefs ::
  "lookup \<Rightarrow> Compressor \<Rightarrow> BackrefType \<times> BackrefType \<times> BackrefType \<Rightarrow> byte list \<Rightarrow> int \<Rightarrow> int
     \<Rightarrow> error + (bool \<times> backref \<times> backref \<times> backref)" where
  "fillBackrefs lk c T input i minLen =
     (case T of (tShort, tLong, tDict) \<Rightarrow>
       (case findBackRef lk c input i tDict minLen of
          Inl e \<Rightarrow> Inl e
        | Inr (da, dl) \<Rightarrow>
           (case findBackRef lk c input i tShort minLen of
              Inl e \<Rightarrow> Inl e
            | Inr (sa, sl) \<Rightarrow>
               (case findBackRef lk c input i tLong minLen of
                  Inl e \<Rightarrow> Inl e
                | Inr (la, ll) \<Rightarrow>
                    Inr (\<not> (dl = -1 \<and> sl = -1 \<and> ll = -1),
                         \<lparr>address = da, length_br = dl, bType = tDict\<rparr>,
                         \<lparr>address = sa, length_br = sl, bType = tShort\<rparr>,
                         \<lparr>address = la, length_br = ll, bType = tLong\<rparr>)))))"

definition bestBackref :: "backref \<Rightarrow> backref \<Rightarrow> backref \<Rightarrow> backref \<times> int" where
  "bestBackref bDict bShort bLong =
     (if length_br bDict \<noteq> -1 \<and> savings bDict > savings bShort \<and> savings bDict > savings bLong
        then (bDict, savings bDict)
      else if length_br bShort \<noteq> -1 \<and> savings bShort > savings bLong
        then (bShort, savings bShort)
      else (bLong, savings bLong))"

text \<open>
  The look-ahead of the main loop (the statement \<open>if i+1 < len(input)\<close> after
  \<open>bestAtI, bestSavings := bestBackref()\<close>): it returns the new \<open>i\<close>, the bit writer and
  the back-reference to emit.
\<close>

definition lookahead ::
  "lookup \<Rightarrow> constants \<Rightarrow> Compressor \<Rightarrow> BackrefType \<times> BackrefType \<times> BackrefType \<Rightarrow> byte list
     \<Rightarrow> int \<Rightarrow> bitwriter \<Rightarrow> backref \<Rightarrow> int \<Rightarrow> error + (int \<times> bitwriter \<times> backref)" where
  "lookahead lk K c T input i bw bestAtI bestSavings =
     (if i + 1 < int (length input) then
       (case fillBackrefs lk c T input (i + 1) (length_br bestAtI + 1) of
          Inl e \<Rightarrow> Inl e
        | Inr (found1, bD1, bS1, bL1) \<Rightarrow>
            if found1 then
              (case bestBackref bD1 bS1 bL1 of (newBest, newSavings) \<Rightarrow>
               if newSavings > bestSavings then
                 (case writeByte K bw (input ! nat i) of
                    Inl e \<Rightarrow> Inl e
                  | Inr bw1 \<Rightarrow>
                      if canEncodeSymbol K (input ! nat (i + 1)) \<and> i + 1 + 1 < int (length input) then
                        (case fillBackrefs lk c T input (i + 1 + 1) (length_br newBest + 1) of
                           Inl e \<Rightarrow> Inl e
                         | Inr (found2, bD2, bS2, bL2) \<Rightarrow>
                             if found2 then
                               (case bestBackref bD2 bS2 bL2 of (newBest2, newSavings2) \<Rightarrow>
                                if newSavings2 > newSavings then
                                  (case writeByte K bw1 (input ! nat (i + 1)) of
                                     Inl e \<Rightarrow> Inl e
                                   | Inr bw2 \<Rightarrow> Inr (i + 1 + 1, bw2, newBest2))
                                else Inr (i + 1, bw1, newBest))
                             else Inr (i + 1, bw1, newBest))
                      else Inr (i + 1, bw1, newBest))
               else Inr (i, bw, bestAtI))
            else if i + 2 < int (length input) \<and> canEncodeSymbol K (input ! nat (i + 1)) then
              (case fillBackrefs lk c T input (i + 2) (length_br bestAtI + 2) of
                 Inl e \<Rightarrow> Inl e
               | Inr (found2, bD2, bS2, bL2) \<Rightarrow>
                   if found2 then
                     (case bestBackref bD2 bS2 bL2 of (newBest, newSavings) \<Rightarrow>
                      if newSavings > bestSavings then
                        (case writeByte K bw (input ! nat i) of
                           Inl e \<Rightarrow> Inl e
                         | Inr bw1 \<Rightarrow>
                             (case writeByte K bw1 (input ! nat (i + 1)) of
                                Inl e \<Rightarrow> Inl e
                              | Inr bw2 \<Rightarrow> Inr (i + 2, bw2, newBest)))
                      else Inr (i, bw, bestAtI))
                   else Inr (i, bw, bestAtI))
            else Inr (i, bw, bestAtI))
      else Inr (i, bw, bestAtI))"

text \<open>
  One pass through the body of the main loop, entered with \<open>i < len(input)\<close>: it returns
  the new \<open>i\<close> and the bit writer, or the error or panic that ends \<open>Compress\<close>.
\<close>

definition compressStep ::
  "lookup \<Rightarrow> constants \<Rightarrow> Compressor \<Rightarrow> BackrefType \<times> BackrefType \<times> BackrefType \<Rightarrow> byte list
     \<Rightarrow> int \<Rightarrow> bitwriter \<Rightarrow> error + (int \<times> bitwriter)" where
  "compressStep lk K c T input i bw =
     (case index input i of
        Inl e \<Rightarrow> Inl e
      | Inr x \<Rightarrow>
          if \<not> canEncodeSymbol K x then
            (case fillBackrefs lk c T input i 1 of
               Inl e \<Rightarrow> Inl e
             | Inr (found, bD, bS, bL) \<Rightarrow>
                 if \<not> found then Inl (ErrNoBackref i)
                 else (case bestBackref bD bS bL of (best, _) \<Rightarrow>
                         Inr (i + length_br best, writeTo best bw i)))
          else
            (case fillBackrefs lk c T input i (-1) of
               Inl e \<Rightarrow> Inl e
             | Inr (found, bD, bS, bL) \<Rightarrow>
                 if \<not> found then
                   (case writeByte K bw x of Inl e \<Rightarrow> Inl e | Inr bw1 \<Rightarrow> Inr (i + 1, bw1))
                 else
                   (case bestBackref bD bS bL of (bestAtI, bestSavings) \<Rightarrow>
                     (case lookahead lk K c T input i bw bestAtI bestSavings of
                        Inl e \<Rightarrow> Inl e
                      | Inr (i1, bw1, best) \<Rightarrow> Inr (i1 + length_br best, writeTo best bw1 i1)))))"

text \<open>
  The main loop \<open>for i := startI; i < len(input); \<close>. A back-reference of length zero or
  less (nothing in \<open>Compress\<close> excludes one) does not advance \<open>i\<close>, so the loop is run
  with fuel: \<open>None\<close> says that the fuel did not suffice.
\<close>

fun compressLoop ::
  "lookup \<Rightarrow> constants \<Rightarrow> Compressor \<Rightarrow> BackrefType \<times> BackrefType \<times> BackrefType \<Rightarrow> byte list
     \<Rightarrow> nat \<Rightarrow> int \<Rightarrow> bitwriter \<Rightarrow> (error + bitwriter) option" where
  "compressLoop lk K c T input fuel i bw =
     (if i < int (length input) then
        (case fuel of
           0 \<Rightarrow> None
         | Suc fuel' \<Rightarrow>
             (case compressStep lk K c T input i bw of
                Inl e \<Rightarrow> Some (Inl e)
              | Inr (i', bw') \<Rightarrow> compressLoop lk K c T input fuel' i' bw'))
      else Some (Inr bw))"

declare compressLoop.simps [simp del]

subsection \<open>Replaying a hint (compressFromHint)\<close>

text \<open>
  The copy loop of a short or long back-reference,
  \<open>for i := 0; i < b.length; i++ { out.WriteByte(out.Bytes()[out.Len()-b.address]) }\<close>,
  with \<open>n\<close> iterations left.
\<close>

fun copyLoop :: "byte list \<Rightarrow> int \<Rightarrow> nat \<Rightarrow> error + byte list" where
  "copyLoop out a 0 = Inr out"
| "copyLoop out a (Suc n) =
     (case index out (int (length out) - a) of
        Inl e \<Rightarrow> Inl e
      | Inr x \<Rightarrow> copyLoop (out @ [x]) a n)"

text \<open>
  One pass through the body of the replay loop ends in a \<open>return\<close> of \<open>startI\<close>
  (\<open>Return\<close>), or goes on to read the next byte (\<open>Continue\<close>) with the reader, the
  buffer \<open>out\<close>, \<open>startI\<close> and the bit writer.
\<close>

datatype hintResult =
    Return int bitwriter
  | Continue bitreader "byte list" int bitwriter

text \<open>The cases \<open>SymbolShort\<close> and \<open>SymbolLong\<close>, which differ in the type only.\<close>

definition hintCopy ::
  "BackrefType \<Rightarrow> byte list \<Rightarrow> bitreader \<Rightarrow> byte list \<Rightarrow> int \<Rightarrow> bitwriter \<Rightarrow> error + hintResult" where
  "hintCopy t input r out startI bw =
     (case readFrom \<lparr>address = 0, length_br = 0, bType = t\<rparr> r of (b, r') \<Rightarrow>
        (case copyLoop out (address b) (nat (length_br b)) of
           Inl e \<Rightarrow> Inl e
         | Inr out' \<Rightarrow>
            (case slice out' startI (startI + length_br b) of
               Inl e \<Rightarrow> Inl e
             | Inr decompressed \<Rightarrow>
                (case slice input startI (startI + length_br b) of
                   Inl e \<Rightarrow> Inl e
                 | Inr expected \<Rightarrow>
                     if decompressed \<noteq> expected then Inr (Return startI bw)
                     else Inr (Continue r' out' (startI + length_br b)
                                 (writeTo (b\<lparr>address := int (length out) - address b\<rparr>) bw startI))))))"

text \<open>The case \<open>SymbolDict\<close>.\<close>

definition hintDict ::
  "Compressor \<Rightarrow> BackrefType \<Rightarrow> byte list \<Rightarrow> bitreader \<Rightarrow> byte list \<Rightarrow> int \<Rightarrow> bitwriter \<Rightarrow> error + hintResult" where
  "hintDict c t input r out startI bw =
     (case readFrom \<lparr>address = 0, length_br = 0, bType = t\<rparr> r of (b, r') \<Rightarrow>
        (case slice (dictData c) (address b) (address b + length_br b) of
           Inl e \<Rightarrow> Inl e
         | Inr ds \<Rightarrow>
            (case slice input startI (startI + length_br b) of
               Inl e \<Rightarrow> Inl e
             | Inr expected \<Rightarrow>
                 if ds \<noteq> expected then Inr (Return startI bw)
                 else Inr (Continue r' (out @ ds) (startI + length_br b) (writeTo b bw startI)))))"

definition hintStep ::
  "constants \<Rightarrow> Compressor \<Rightarrow> BackrefType \<times> BackrefType \<times> BackrefType \<Rightarrow> byte list
     \<Rightarrow> bitreader \<Rightarrow> byte \<Rightarrow> byte list \<Rightarrow> int \<Rightarrow> bitwriter \<Rightarrow> error + hintResult" where
  "hintStep K c T input r s out startI bw =
     (case T of (tShort, tLong, tDict) \<Rightarrow>
        if s = SymbolShort K then hintCopy tShort input r out startI bw
        else if s = SymbolLong K then hintCopy tLong input r out startI bw
        else if s = SymbolDict K then hintDict c tDict input r out startI bw
        else (case index input startI of
                Inl e \<Rightarrow> Inl e
              | Inr x \<Rightarrow>
                  if s \<noteq> x then Inr (Return startI bw)
                  else (case writeByte K bw x of
                          Inl e \<Rightarrow> Inl e
                        | Inr bw' \<Rightarrow> Inr (Continue r (out @ [s]) (startI + 1) bw'))))"

text \<open>Every read leaves at most the bits there were; this bounds the replay loop.\<close>

definition rmeasure :: "bitreader \<Rightarrow> nat" where
  "rmeasure r = 2 * length (rbits r) + (if TryError r then 0 else 1)"

lemma TryReadBits_rbits: "length (rbits (snd (TryReadBits r n))) \<le> length (rbits r)"
  by (simp add: TryReadBits_def)

lemma readField_rbits: "length (rbits (snd (readField r n))) \<le> length (rbits r)"
proof (induction r n rule: readField.induct)
  case (1 r n)
  show ?case
  proof (cases "8 \<le> n")
    case True
    obtain lo r1 where a: "TryReadBits r 8 = (lo, r1)" by (cases "TryReadBits r 8")
    obtain hi r2 where b: "readField r1 (n - 8) = (hi, r2)" by (cases "readField r1 (n - 8)")
    from "1.IH" [OF True a [symmetric]] b have "length (rbits r2) \<le> length (rbits r1)" by simp
    moreover from TryReadBits_rbits [of r 8] a have "length (rbits r1) \<le> length (rbits r)" by simp
    ultimately show ?thesis using True a b by (subst readField.simps) simp
  next
    case False
    then show ?thesis using TryReadBits_rbits [of r n] by (subst readField.simps) simp
  qed
qed

lemma readFrom_rbits: "length (rbits (snd (readFrom b r))) \<le> length (rbits r)"
proof -
  obtain l r1 where a: "readField r (unat (nbBitsLength (bType b))) = (l, r1)"
    by (cases "readField r (unat (nbBitsLength (bType b)))")
  obtain ad r2 where c: "readField r1 (unat (nbBitsAddress (bType b))) = (ad, r2)"
    by (cases "readField r1 (unat (nbBitsAddress (bType b)))")
  from readField_rbits [of r "unat (nbBitsLength (bType b))"] a
  have "length (rbits r1) \<le> length (rbits r)" by simp
  moreover from readField_rbits [of r1 "unat (nbBitsAddress (bType b))"] c
  have "length (rbits r2) \<le> length (rbits r1)" by simp
  ultimately show ?thesis using a c by (simp add: readFrom_def Let_def)
qed

lemma hintStep_rbits:
  assumes "hintStep K c T input r s out startI bw = Inr (Continue r' out' i' bw')"
  shows "length (rbits r') \<le> length (rbits r)"
proof -
  obtain tS tL tD where T: "T = (tS, tL, tD)" by (cases T)
  have copy: "length (rbits r') \<le> length (rbits r)"
    if "hintCopy t input r out startI bw = Inr (Continue r' out' i' bw')" for t
    using that readFrom_rbits [of "\<lparr>address = 0, length_br = 0, bType = t\<rparr>" r]
    by (auto simp: hintCopy_def split: prod.splits sum.splits if_splits)
  have dict: "length (rbits r') \<le> length (rbits r)"
    if "hintDict c t input r out startI bw = Inr (Continue r' out' i' bw')" for t
    using that readFrom_rbits [of "\<lparr>address = 0, length_br = 0, bType = t\<rparr>" r]
    by (auto simp: hintDict_def split: prod.splits sum.splits if_splits)
  from assms T show ?thesis
    by (auto simp: hintStep_def split: if_splits sum.splits dest: copy dict)
qed

lemma TryReadByte_rmeasure:
  assumes "\<not> TryError r" "length (rbits r') \<le> length (rbits r)"
  shows "rmeasure (snd (TryReadByte r')) < rmeasure r"
  using assms
  by (auto simp: TryReadByte_def TryReadBits_def rmeasure_def split: prod.splits if_splits)

function hintLoop ::
  "constants \<Rightarrow> Compressor \<Rightarrow> BackrefType \<times> BackrefType \<times> BackrefType \<Rightarrow> byte list
     \<Rightarrow> bitreader \<Rightarrow> byte \<Rightarrow> byte list \<Rightarrow> int \<Rightarrow> bitwriter \<Rightarrow> error + (int \<times> bitwriter)" where
  "hintLoop K c T input r s out startI bw =
     (if TryError r then Inr (startI, bw)
      else (case hintStep K c T input r s out startI bw of
              Inl e \<Rightarrow> Inl e
            | Inr (Return i w) \<Rightarrow> Inr (i, w)
            | Inr (Continue r' out' i' bw') \<Rightarrow>
                hintLoop K c T input (snd (TryReadByte r')) (fst (TryReadByte r')) out' i' bw'))"
  by pat_completeness auto
termination
proof (relation "measure (\<lambda>(K, c, T, input, r, s, out, startI, bw). rmeasure r)")
  show "wf (measure (\<lambda>(K, c, T, input, r, s, out, startI, bw). rmeasure r))" by simp
next
  fix K c T input r s out startI bw x2 r' out' i' bw'
  assume "\<not> TryError r" and "hintStep K c T input r s out startI bw = Inr x2"
    and "x2 = Continue r' out' i' bw'"
  then have "length (rbits r') \<le> length (rbits r)" using hintStep_rbits by blast
  with \<open>\<not> TryError r\<close> have "rmeasure (snd (TryReadByte r')) < rmeasure r"
    by (rule TryReadByte_rmeasure)
  then show "((K, c, T, input, snd (TryReadByte r'), fst (TryReadByte r'), out', i', bw'),
               (K, c, T, input, r, s, out, startI, bw))
             \<in> measure (\<lambda>(K, c, T, input, r, s, out, startI, bw). rmeasure r)"
    by simp
qed

text \<open>
  \<open>compressFromHint\<close> returns \<open>startI\<close>; the model returns the bit writer with it. The
  three early returns leave \<open>startI = 0\<close> and the bit writer as it was.
\<close>

definition compressFromHint ::
  "constants \<Rightarrow> Compressor \<Rightarrow> Header \<Rightarrow> byte list \<Rightarrow> byte list \<Rightarrow> bitwriter \<Rightarrow> error + (int \<times> bitwriter)" where
  "compressFromHint K c header input hint bw =
     (let T = InitBackRefTypes K (int (length (dictData c))) (level c) in
      case Header_ReadFrom (NewReader hint) of
        Inl e \<Rightarrow> Inr (0, bw)
      | Inr (hintHeader, r) \<Rightarrow>
          if hVersion hintHeader \<noteq> hVersion header \<or> hLevel hintHeader \<noteq> hLevel header
            then Inr (0, bw)
          else if hLevel hintHeader = NoCompression then Inr (0, bw)
          else hintLoop K c T input (snd (TryReadByte r)) (fst (TryReadByte r)) [] 0 bw)"

subsection \<open>Compress\<close>

text \<open>
  \<open>Compress\<close> with the variadic \<open>hints\<close> as a list. \<open>compressBuffer\<close> is the part of
  \<open>Compress\<close> from the creation of the bit writer to its \<open>Close\<close>: its result is
  the content of \<open>compressor.buf\<close> before the test whether compression was worth it. The
  buffer starts empty (\<open>buf.Reset()\<close>) and takes the header; the test of \<open>bw.TryError\<close>
  cannot fire.
\<close>

definition compressBuffer ::
  "lookup \<Rightarrow> constants \<Rightarrow> Compressor \<Rightarrow> nat \<Rightarrow> byte list \<Rightarrow> byte list list \<Rightarrow> (error + byte list) option" where
  "compressBuffer lk K c fuel input hints =
     (let header = \<lparr>hVersion = Version K, hLevel = level c\<rparr>;
          buf = Header_WriteTo header [];
          T = InitBackRefTypes K (int (length (dictData c))) (level c)
      in case (if length hints = 1 then compressFromHint K c header input (hints ! 0) []
               else Inr (0, [])) of
           Inl e \<Rightarrow> Some (Inl e)
         | Inr (startI, bw) \<Rightarrow>
             (case compressLoop lk K c T input fuel startI bw of
                None \<Rightarrow> None
              | Some (Inl e) \<Rightarrow> Some (Inl e)
              | Some (Inr bw') \<Rightarrow> Some (Inr (buf @ bytesOf (Close bw')))))"

definition Compress ::
  "lookup \<Rightarrow> constants \<Rightarrow> Compressor \<Rightarrow> nat \<Rightarrow> byte list \<Rightarrow> byte list list \<Rightarrow> (error + byte list) option" where
  "Compress lk K c fuel input hints =
     (if int (length input) > MaxInputSize K then Some (Inl ErrInputTooLarge)
      else
        let header = \<lparr>hVersion = Version K, hLevel = level c\<rparr>;
            buf = Header_WriteTo header []
        in if level c = NoCompression then Some (Inr (buf @ input))
           else
             (case compressBuffer lk K c fuel input hints of
                None \<Rightarrow> None
              | Some (Inl e) \<Rightarrow> Some (Inl e)
              | Some (Inr buf') \<Rightarrow>
                  if int (length buf') \<ge> int (length input) + bitLen_lzss div 8
                  then Some (Inr (Header_WriteTo (header\<lparr>hLevel := NoCompression\<rparr>) [] @ input))
                  else Some (Inr buf')))"

subsection \<open>Decoding the output layout\<close>

text \<open>
  Modelled from the spec: the decompressor, which is not among the sources, as the spec's
  output layout has it. After the two-byte header the payload is the raw input when
  \<open>Level = 0\<close>; otherwise it is a sequence of items read byte by byte: an escape byte
  starts a back-reference of its type, whose fields follow as in \<open>readFrom\<close> and which
  copies \<open>length\<close> bytes from the dictionary at \<open>address\<close> or from the output so far
  at distance \<open>address\<close>; any other byte is a literal. Decoding ends when no whole byte
  is left. The dictionary is the augmented one.
\<close>

definition decodeStep ::
  "constants \<Rightarrow> byte list \<Rightarrow> BackrefType \<times> BackrefType \<times> BackrefType \<Rightarrow> bitreader \<Rightarrow> byte \<Rightarrow> byte list
     \<Rightarrow> error + (bitreader \<times> byte list)" where
  "decodeStep K dict T r s out =
     (case T of (tShort, tLong, tDict) \<Rightarrow>
        if s = SymbolShort K \<or> s = SymbolLong K then
          (case readFrom \<lparr>address = 0, length_br = 0,
                           bType = (if s = SymbolShort K then tShort else tLong)\<rparr> r of
             (b, r') \<Rightarrow>
               (case copyLoop out (address b) (nat (length_br b)) of
                  Inl e \<Rightarrow> Inl e
                | Inr out' \<Rightarrow> Inr (r', out')))
        else if s = SymbolDict K then
          (case readFrom \<lparr>address = 0, length_br = 0, bType = tDict\<rparr> r of
             (b, r') \<Rightarrow>
               (case slice dict (address b) (address b + length_br b) of
                  Inl e \<Rightarrow> Inl e
                | Inr ds \<Rightarrow> Inr (r', out @ ds)))
        else Inr (r, out @ [s]))"

lemma decodeStep_rbits:
  assumes "decodeStep K dict T r s out = Inr (r', out')"
  shows "length (rbits r') \<le> length (rbits r)"
proof -
  obtain tS tL tD where T: "T = (tS, tL, tD)" by (cases T)
  have "length (rbits (snd (readFrom b r))) \<le> length (rbits r)" for b
    by (rule readFrom_rbits)
  then have rf: "readFrom b r = (b', r') \<Longrightarrow> length (rbits r') \<le> length (rbits r)" for b b'
    by (metis snd_conv)
  from assms T show ?thesis
    by (auto simp: decodeStep_def split: if_splits sum.splits prod.splits dest: rf)
qed

function decodeLoop ::
  "constants \<Rightarrow> byte list \<Rightarrow> BackrefType \<times> BackrefType \<times> BackrefType \<Rightarrow> bitreader \<Rightarrow> byte \<Rightarrow> byte list
     \<Rightarrow> error + byte list" where
  "decodeLoop K dict T r s out =
     (if TryError r then Inr out
      else (case decodeStep K dict T r s out of
              Inl e \<Rightarrow> Inl e
            | Inr (r', out') \<Rightarrow>
                decodeLoop K dict T (snd (TryReadByte r')) (fst (TryReadByte r')) out'))"
  by pat_completeness auto
termination
proof (relation "measure (\<lambda>(K, dict, T, r, s, out). rmeasure r)")
  show "wf (measure (\<lambda>(K, dict, T, r, s, out). rmeasure r))" by simp
next
  fix K dict T r s out x2 r' out'
  assume "\<not> TryError r" and "decodeStep K dict T r s out = Inr x2" and "(r', out') = x2"
  then have "length (rbits r') \<le> length (rbits r)" using decodeStep_rbits by metis
  with \<open>\<not> TryError r\<close> have "rmeasure (snd (TryReadByte r')) < rmeasure r"
    by (rule TryReadByte_rmeasure)
  then show "((K, dict, T, snd (TryReadByte r'), fst (TryReadByte r'), out'), (K, dict, T, r, s, out))
             \<in> measure (\<lambda>(K, dict, T, r, s, out). rmeasure r)"
    by simp
qed

definition Decompress :: "constants \<Rightarrow> byte list \<Rightarrow> byte list \<Rightarrow> error + byte list" where
  "Decompress K dict data =
     (let d = AugmentDict K dict in
      case Header_ReadFrom (NewReader data) of
        Inl e \<Rightarrow> Inl e
      | Inr (h, r) \<Rightarrow>
          if hLevel h = NoCompression then Inr (drop 2 data)
          else decodeLoop K d (InitBackRefTypes K (int (length d)) (hLevel h))
                 (snd (TryReadByte r)) (fst (TryReadByte r)) [])"

section \<open>The symbol stream (stream.go)\<close>

text \<open>
  Go's \<open>int\<close> has 64 bits. The loop of \<open>bitLen\<close> shifts past them: \<open>1<<k\<close> is
  \<open>-2^63\<close> at \<open>k = 63\<close> and \<open>0\<close> from \<open>k = 64\<close> on, so for \<open>n > 2^62\<close> the test
  \<open>1<<bitLen < n\<close> holds forever and \<open>bitLen\<close> does not return: the value \<open>None\<close>.
  Elsewhere in this file the model computes in unbounded integers; the values there are
  lengths, indices and bit counts, within 64 bits for every slice that fits in memory.
  Division is Go's, truncating towards zero, and panics on a zero divisor.
\<close>

record Stream =
  D :: "int list"
  NbSymbs :: int

definition shl1 :: "nat \<Rightarrow> int" where
  "shl1 k = sint (push_bit k (1 :: 64 word))"

function bitLen_loop :: "int \<Rightarrow> nat \<Rightarrow> nat option" where
  "bitLen_loop n k =
     (if shl1 k < n then (if 64 \<le> k then None else bitLen_loop n (Suc k)) else Some k)"
  by pat_completeness auto
termination
  by (relation "measure (\<lambda>(n, k). 64 - k)") auto

definition bitLen :: "int \<Rightarrow> nat option" where
  "bitLen n = bitLen_loop n 0"

definition tdiv :: "int \<Rightarrow> int \<Rightarrow> int" where
  "tdiv a b = sgn a * sgn b * (\<bar>a\<bar> div \<bar>b\<bar>)"

text \<open>
  The inner loop of \<open>Pack\<close> for element \<open>i\<close>, \<open>j\<close> running from \<open>wordsPerElem - 1\<close>
  down to \<open>0\<close> and skipping (\<open>continue\<close>) the indices past the end of \<open>D\<close>.
\<close>

definition Pack_elem :: "int list \<Rightarrow> int \<Rightarrow> int \<Rightarrow> int \<Rightarrow> int" where
  "Pack_elem d wordsPerElem radix i =
     foldl (\<lambda>acc j. let absJ = i * wordsPerElem + j in
                     if absJ \<ge> int (length d) then acc else acc * radix + d ! nat absJ)
           0 (rev [0 .. wordsPerElem - 1])"

definition Pack :: "Stream \<Rightarrow> int \<Rightarrow> (error + int list) option" where
  "Pack s nbBits =
     (case bitLen (NbSymbs s) of
        None \<Rightarrow> None
      | Some wordLen \<Rightarrow> Some (
          if wordLen = 0 then Inl PanicDivideByZero
          else
            let wordsPerElem = tdiv (nbBits - 1) (int wordLen);
                radix = 2 ^ wordLen
            in if wordsPerElem = 0 then Inl PanicDivideByZero
               else
                 let n = tdiv (int (length (D s)) + wordsPerElem - 1) wordsPerElem
                 in if n < 0 then Inl PanicMakeSlice
                    else Inr (map (Pack_elem (D s) wordsPerElem radix) [0 .. n - 1])))"

text \<open>
  \<open>binary.BigEndian.PutUint32\<close> and \<open>Uint32\<close>, and \<open>FillBytes\<close> of \<open>big.Int\<close>, which
  writes the absolute value big-endian, zero-extended, into a buffer of \<open>n\<close> bytes and
  panics when it does not fit.
\<close>

definition bigEndian :: "int \<Rightarrow> nat \<Rightarrow> byte list" where
  "bigEndian v n = map (\<lambda>k. word_of_int (v div 256 ^ k)) (rev [0..<n])"

definition PutUint32 :: "int \<Rightarrow> byte list" where
  "PutUint32 v = bigEndian (v mod 2 ^ 32) 4"

definition Uint32 :: "byte list \<Rightarrow> int" where
  "Uint32 bs = foldl (\<lambda>acc b. 256 * acc + uint b) 0 bs"

definition big_FillBytes :: "int \<Rightarrow> nat \<Rightarrow> error + byte list" where
  "big_FillBytes v n = (if \<bar>v\<bar> < 256 ^ n then Inr (bigEndian \<bar>v\<bar> n) else Inl PanicFillBytes)"

text \<open>
  The inner loop of \<open>FillBytes\<close> for element \<open>i\<close>, \<open>j\<close> running up from \<open>0\<close> and
  leaving (\<open>break\<close>) at the first index past the end of \<open>D\<close>.
\<close>

definition FillBytes_elem :: "int list \<Rightarrow> int \<Rightarrow> int \<Rightarrow> int \<Rightarrow> int" where
  "FillBytes_elem d wordsPerElem radix i =
     foldl (\<lambda>elem absJ. elem * radix + d ! nat absJ) 0
       (takeWhile (\<lambda>absJ. absJ < int (length d)) (map (\<lambda>j. i * wordsPerElem + j) [0 .. wordsPerElem - 1]))"

text \<open>The outer loop of \<open>FillBytes\<close> over the elements \<open>is\<close>, on \<open>dst[4:]\<close>.\<close>

fun FillBytes_loop :: "int list \<Rightarrow> int \<Rightarrow> int \<Rightarrow> int \<Rightarrow> int list \<Rightarrow> byte list \<Rightarrow> error + byte list" where
  "FillBytes_loop d wordsPerElem bytesPerElem radix [] dst = Inr dst"
| "FillBytes_loop d wordsPerElem bytesPerElem radix (i # is) dst =
     (case slice dst (i * bytesPerElem) ((i + 1) * bytesPerElem) of
        Inl e \<Rightarrow> Inl e
      | Inr _ \<Rightarrow>
         (case big_FillBytes (FillBytes_elem d wordsPerElem radix i) (nat bytesPerElem) of
            Inl e \<Rightarrow> Inl e
          | Inr bs \<Rightarrow>
              FillBytes_loop d wordsPerElem bytesPerElem radix is
                (take (nat (i * bytesPerElem)) dst @ bs @ drop (nat ((i + 1) * bytesPerElem)) dst)))"

text \<open>\<open>FillBytes\<close> writes into \<open>dst\<close>; the model returns the contents of \<open>dst\<close> after the call.\<close>

definition FillBytes :: "Stream \<Rightarrow> byte list \<Rightarrow> int \<Rightarrow> (error + byte list) option" where
  "FillBytes s dst nbBits =
     (case bitLen (NbSymbs s) of
        None \<Rightarrow> None
      | Some wordLen \<Rightarrow> Some (
          let bitsPerWord = int wordLen in
          if bitsPerWord \<ge> nbBits then Inl ErrWordsDoNotFit
          else if bitsPerWord = 0 then Inl PanicDivideByZero
          else
            let wordsPerElem = tdiv (nbBits - 1) bitsPerWord;
                bytesPerElem = tdiv (nbBits + 7) 8
            in if wordsPerElem = 0 then Inl PanicDivideByZero
               else
                 let nbElems = tdiv (int (length (D s)) + wordsPerElem - 1) wordsPerElem
                 in if int (length dst) < tdiv (int (length (D s)) * bitsPerWord + 7) 8 + 4
                    then Inl ErrNotEnoughRoom
                    else (case FillBytes_loop (D s) wordsPerElem bytesPerElem (2 ^ wordLen)
                                 [0 .. nbElems - 1] (drop 4 dst) of
                            Inl e \<Rightarrow> Inl e
                          | Inr rest \<Rightarrow> Inr (PutUint32 (int (length (D s))) @ rest))))"

definition resize :: "int list \<Rightarrow> int \<Rightarrow> int list" where
  "resize d n = (if int (length d) < n then replicate (nat n) 0 else take (nat n) d)"

text \<open>
  The loops of \<open>ReadBytes\<close>. Every bit count goes through the conversion \<open>uint8(...)\<close>,
  which keeps its low eight bits.
\<close>

definition uint8 :: "int \<Rightarrow> nat" where
  "uint8 x = nat (x mod 256)"

fun ReadBytes_words :: "int \<Rightarrow> int \<Rightarrow> int list \<Rightarrow> int list \<Rightarrow> bitreader \<Rightarrow> int list \<times> bitreader" where
  "ReadBytes_words bitsPerWord base [] d w = (d, w)"
| "ReadBytes_words bitsPerWord base (j # js) d w =
     (if base + j \<ge> int (length d) then ReadBytes_words bitsPerWord base js d w
      else (case TryReadBits w (uint8 bitsPerWord) of
              (v, w') \<Rightarrow> ReadBytes_words bitsPerWord base js (d[nat (base + j) := v]) w'))"

fun ReadBytes_loop :: "int \<Rightarrow> int \<Rightarrow> int \<Rightarrow> int \<Rightarrow> int list \<Rightarrow> int list \<Rightarrow> bitreader \<Rightarrow> int list \<times> bitreader" where
  "ReadBytes_loop bitsPerWord wordsPerElem bytesPerElem nbElems [] d w = (d, w)"
| "ReadBytes_loop bitsPerWord wordsPerElem bytesPerElem nbElems (i # is) d w =
     (let w1 = snd (TryReadBits w (uint8 (8 * bytesPerElem - bitsPerWord * wordsPerElem)));
          w2 = (if i + 1 = nbElems
                then snd (TryReadBits w1
                            (uint8 ((wordsPerElem - (int (length d) - i * wordsPerElem)) * bitsPerWord)))
                else w1)
      in case ReadBytes_words bitsPerWord (i * wordsPerElem) [0 .. wordsPerElem - 1] d w2 of
           (d', w3) \<Rightarrow> ReadBytes_loop bitsPerWord wordsPerElem bytesPerElem nbElems is d' w3)"

text \<open>\<open>ReadBytes\<close> changes \<open>s.D\<close>; the model returns the stream after the call.\<close>

definition ReadBytes :: "Stream \<Rightarrow> byte list \<Rightarrow> int \<Rightarrow> (error + Stream) option" where
  "ReadBytes s src nbBits =
     (case bitLen (NbSymbs s) of
        None \<Rightarrow> None
      | Some wordLen \<Rightarrow> Some (
          let bitsPerWord = int wordLen in
          if bitsPerWord \<ge> nbBits then Inl ErrWordsDoNotFit
          else if NbSymbs s \<noteq> shl1 wordLen then Inl ErrNotPowerOfTwo
          else (case slice src 0 4 of
                  Inl e \<Rightarrow> Inl e
                | Inr prefix \<Rightarrow>
                    let d = resize (D s) (Uint32 prefix);
                        src' = drop 4 src
                    in if bitsPerWord = 0 then Inl PanicDivideByZero
                       else
                         let wordsPerElem = tdiv (nbBits - 1) bitsPerWord;
                             bytesPerElem = tdiv (nbBits + 7) 8
                         in if wordsPerElem = 0 then Inl PanicDivideByZero
                            else
                              let nbElems = tdiv (int (length d) + wordsPerElem - 1) wordsPerElem
                              in if int (length src') < nbElems * bytesPerElem then Inl ErrNotEnoughBytes
                                 else (case ReadBytes_loop bitsPerWord wordsPerElem bytesPerElem nbElems
                                              [0 .. nbElems - 1] d (NewReader src') of
                                         (d', w) \<Rightarrow>
                                           if TryError w then Inl ErrEOF
                                           else Inr (s\<lparr>D := d'\<rparr>)))))"

section \<open>Data of the concrete runs\<close>

text \<open>
  Candidates of the three types at level 8 over a dictionary of eleven bytes: no dict
  candidate, a short one of length 4 and a long one of length 5.
\<close>

definition exDict :: backref where
  "exDict = \<lparr>address = -1, length_br = -1, bType = snd (snd (InitBackRefTypes K0 11 8))\<rparr>"

definition exShort :: backref where
  "exShort = \<lparr>address = 0, length_br = 4, bType = fst (InitBackRefTypes K0 11 8)\<rparr>"

definition exLong :: backref where
  "exLong = \<lparr>address = 0, length_br = 5, bType = fst (snd (InitBackRefTypes K0 11 8))\<rparr>"

text \<open>
  Two compressors at level 8, as \<open>NewCompressor\<close> returns them: over the dictionary
  \<open>1, \<dots>, 8\<close> and over the empty dictionary.
\<close>

definition exCompressor :: Compressor where
  "exCompressor = \<lparr>dictData = [1, 2, 3, 4, 5, 6, 7, 8, 0xFF, 0xFE, 0xFD], level = 8\<rparr>"

definition exCompressorNoDict :: Compressor where
  "exCompressorNoDict = \<lparr>dictData = [0xFF, 0xFE, 0xFD], level = 8\<rparr>"


section \<open>Hints that fail header validation\<close>

text \<open>
  The three early returns of \<open>compressFromHint\<close>: the header of the hint cannot be read,
  its version or level differs from the compressor's, or its level is \<open>NoCompression\<close>.
\<close>

definition hintHeaderRejected :: "constants \<Rightarrow> Compressor \<Rightarrow> byte list \<Rightarrow> bool" where
  "hintHeaderRejected K c hint =
     (case Header_ReadFrom (NewReader hint) of
        Inl e \<Rightarrow> True
      | Inr (h, r) \<Rightarrow> hVersion h \<noteq> Version K \<or> hLevel h \<noteq> level c \<or> hLevel h = NoCompression)"

section \<open>Auxiliary notions of the proofs\<close>

text \<open>What the scan has seen: a flag per escape byte, or the byte itself further on.\<close>

definition seen :: "constants \<Rightarrow> bool \<Rightarrow> bool \<Rightarrow> bool \<Rightarrow> byte list \<Rightarrow> bool" where
  "seen K d s l bs =
     ((d \<or> SymbolDict K \<in> set bs) \<and> (s \<or> SymbolShort K \<in> set bs) \<and> (l \<or> SymbolLong K \<in> set bs))"

text \<open>
  The value that the inner loop of \<open>FillBytes\<close> accumulates over a group of symbols, the
  group of element \<open>i\<close>, and the bits of the block that element \<open>i\<close> occupies in \<open>dst\<close>.
\<close>

definition bigval :: "int \<Rightarrow> int list \<Rightarrow> int" where
  "bigval r xs = foldl (\<lambda>e x. e * r + x) 0 xs"

definition chunk :: "int list \<Rightarrow> nat \<Rightarrow> nat \<Rightarrow> int list" where
  "chunk d W i = take W (drop (i * W) d)"

definition elemBits :: "int list \<Rightarrow> nat \<Rightarrow> nat \<Rightarrow> nat \<Rightarrow> nat \<Rightarrow> bool list" where
  "elemBits d bpw W B i = bitsOf (bigval (2 ^ bpw) (chunk d W i)) (8 * B)"

section \<open>Properties of the dictionary augmentation\<close>

lemma AugmentDict_scan_seen:
  assumes "distinctSymbols K"
  shows "AugmentDict_scan K 0 bs = seen K False False False bs
       \<and> AugmentDict_scan K 1 bs = seen K True False False bs
       \<and> AugmentDict_scan K 2 bs = seen K False True False bs
       \<and> AugmentDict_scan K 3 bs = seen K True True False bs
       \<and> AugmentDict_scan K 4 bs = seen K False False True bs
       \<and> AugmentDict_scan K 5 bs = seen K True False True bs
       \<and> AugmentDict_scan K 6 bs = seen K False True True bs"
proof (induction bs)
  case Nil
  show ?case by (simp add: seen_def)
next
  case (Cons b bs)
  from assms have d: "SymbolDict K \<noteq> SymbolShort K" "SymbolDict K \<noteq> SymbolLong K"
      "SymbolShort K \<noteq> SymbolLong K"
    by (simp_all add: distinctSymbols_def)
  consider "b = SymbolDict K" | "b = SymbolShort K" | "b = SymbolLong K"
    | "b \<noteq> SymbolDict K" "b \<noteq> SymbolShort K" "b \<noteq> SymbolLong K" by blast
  then show ?case
  proof cases
    case 1 with Cons d show ?thesis by (simp add: seen_def)
  next
    case 2 with Cons d show ?thesis by (simp add: seen_def)
  next
    case 3 with Cons d show ?thesis by (simp add: seen_def)
  next
    case 4 with Cons d show ?thesis by (simp add: seen_def)
  qed
qed

lemma distinctSymbols_K0: "distinctSymbols K0"
  by (simp add: distinctSymbols_def K0_def)

text \<open>
  Claim C6, as the code has it. When the three escape bytes are distinct and at least one
  of them does not occur in \<open>dict\<close>, \<open>AugmentDict\<close> returns \<open>dict\<close> followed by all
  three escape bytes, in the order \<open>SymbolDict\<close>, \<open>SymbolShort\<close>, \<open>SymbolLong\<close>, also
  those that \<open>dict\<close> holds already; when all three occur it returns \<open>dict\<close> unchanged.
\<close>

theorem AugmentDict_appends_all_three:
  assumes "distinctSymbols K"
  shows "AugmentDict K dict =
     (if SymbolDict K \<in> set dict \<and> SymbolShort K \<in> set dict \<and> SymbolLong K \<in> set dict
      then dict else dict @ [SymbolDict K, SymbolShort K, SymbolLong K])"
  using AugmentDict_scan_seen [OF assms, of dict] by (simp add: AugmentDict_def seen_def)

theorem AugmentDict_appends_all_three_witness:
  "distinctSymbols K0 \<and> AugmentDict K0 [0xFF, 7] = [0xFF, 7, 0xFF, 0xFE, 0xFD]"
proof -
  have "AugmentDict K0 [0xFF, 7] = [0xFF, 7, 0xFF, 0xFE, 0xFD]"
    using AugmentDict_appends_all_three [OF distinctSymbols_K0, of "[0xFF, 7]"]
    by (simp add: K0_def)
  with distinctSymbols_K0 show ?thesis by simp
qed

text \<open>
  The claim C6 as the spec states it, only the missing escape bytes being appended, fails
  on a dictionary that holds \<open>SymbolDict\<close> alone: the code appends \<open>SymbolDict\<close> again.
\<close>

theorem AugmentDict_only_missing_counterexample:
  "AugmentDict K0 [SymbolDict K0] \<noteq>
     [SymbolDict K0] @ filter (\<lambda>e. e \<notin> set [SymbolDict K0]) [SymbolDict K0, SymbolShort K0, SymbolLong K0]"
  by (simp add: AugmentDict_def K0_def)

section \<open>Properties of the back-reference selection\<close>

lemma bits_Len_11: "bits_Len 11 = 4"
  by code_simp

lemma InitBackRefTypes_K0_11_8:
  "InitBackRefTypes K0 11 8 =
    (\<lparr>symbol = 254, nbBitsAddress = 16, nbBitsLength = 8, nbBytesBackRef = 4,
       maxAddress = 65536, maxLength = 259, dictOnly = False\<rparr>,
     \<lparr>symbol = 253, nbBitsAddress = 24, nbBitsLength = 8, nbBytesBackRef = 5,
       maxAddress = 16777216, maxLength = 260, dictOnly = False\<rparr>,
     \<lparr>symbol = 255, nbBitsAddress = 8, nbBitsLength = 8, nbBytesBackRef = 3,
       maxAddress = 256, maxLength = 258, dictOnly = True\<rparr>)"
  by (simp add: InitBackRefTypes_def newBackRefType_def wordAlign_def K0_def NoCompression_def
      bits_Len_11 Let_def)

text \<open>
  Claim C5, as the code has it. For candidates of three different types, \<open>bestBackref\<close>
  returns the dict candidate exactly when it exists and its savings strictly exceed those
  of the short and of the long candidate; it returns the short candidate exactly when the
  dict candidate is not returned, the short one exists and its savings strictly exceed the
  long one's; so when the short and the long candidate have equal savings and the dict
  candidate is not returned, the long one is selected, not the short one.
\<close>

theorem bestBackref_selection:
  assumes "bType bDict \<noteq> bType bShort" "bType bDict \<noteq> bType bLong" "bType bShort \<noteq> bType bLong"
  shows "(fst (bestBackref bDict bShort bLong) = bDict \<longleftrightarrow>
            length_br bDict \<noteq> -1 \<and> savings bDict > savings bShort \<and> savings bDict > savings bLong)
       \<and> (fst (bestBackref bDict bShort bLong) = bShort \<longleftrightarrow>
            fst (bestBackref bDict bShort bLong) \<noteq> bDict \<and> length_br bShort \<noteq> -1
            \<and> savings bShort > savings bLong)
       \<and> (savings bShort = savings bLong \<and> fst (bestBackref bDict bShort bLong) \<noteq> bDict
            \<longrightarrow> fst (bestBackref bDict bShort bLong) = bLong)"
  using assms by (auto simp: bestBackref_def)

theorem bestBackref_selection_witness:
  "bType exDict \<noteq> bType exShort \<and> bType exDict \<noteq> bType exLong \<and> bType exShort \<noteq> bType exLong
   \<and> savings exShort = savings exLong \<and> fst (bestBackref exDict exShort exLong) = exLong"
proof -
  have t: "bType exDict \<noteq> bType exShort" "bType exDict \<noteq> bType exLong"
      "bType exShort \<noteq> bType exLong"
    by (simp_all add: exDict_def exShort_def exLong_def InitBackRefTypes_K0_11_8)
  have s: "savings exShort = savings exLong"
    by (simp add: exShort_def exLong_def InitBackRefTypes_K0_11_8 savings_def)
  have d: "\<not> (length_br exDict \<noteq> -1)"
    by (simp add: exDict_def)
  from bestBackref_selection [OF t] s d have "fst (bestBackref exDict exShort exLong) = exLong"
    by blast
  with t s show ?thesis by simp
qed

text \<open>
  The claim C5 as the spec states it, short over long on equal savings, fails: a short
  candidate of length 4 and a long one of length 5 both exist and both save nothing, and
  the candidate returned is not the short one.
\<close>

theorem bestBackref_tie_counterexample:
  "length_br exShort \<noteq> -1 \<and> length_br exLong \<noteq> -1 \<and> savings exShort = savings exLong
   \<and> fst (bestBackref exDict exShort exLong) \<noteq> exShort"
  by (simp add: exDict_def exShort_def exLong_def InitBackRefTypes_K0_11_8 bestBackref_def
      savings_def)

section \<open>Properties of the copy loop of the replay\<close>

text \<open>
  Claim C9, as the code has it. \<open>out.Len()\<close> is read anew in every iteration, so the
  position read advances with the buffer: when \<open>1 \<le> address \<le> out.Len()\<close> at loop
  entry, the loop returns the buffer extended by \<open>l\<close> bytes, and the \<open>k\<close>-th byte
  appended is the byte \<open>address\<close> positions before it in the extended buffer.
\<close>

theorem copyLoop_advances:
  assumes "1 \<le> a" "a \<le> int (length out)"
  shows "\<exists>out'. copyLoop out a l = Inr out' \<and> length out' = length out + l
           \<and> take (length out) out' = out
           \<and> (\<forall>k<l. out' ! (length out + k) = out' ! (length out + k - nat a))"
  using assms
proof (induction l arbitrary: out)
  case 0
  then show ?case by simp
next
  case (Suc l)
  let ?x = "out ! nat (int (length out) - a)"
  let ?out1 = "out @ [?x]"
  have idx: "index out (int (length out) - a) = Inr ?x"
    using Suc.prems by (simp add: index_def)
  have "a \<le> int (length ?out1)" using Suc.prems by simp
  from Suc.IH [OF Suc.prems(1) this] obtain out' where
    r: "copyLoop ?out1 a l = Inr out'" and
    len: "length out' = length ?out1 + l" and
    pre: "take (length ?out1) out' = ?out1" and
    cp: "\<forall>k<l. out' ! (length ?out1 + k) = out' ! (length ?out1 + k - nat a)"
    by blast
  have nth_pre: "out' ! j = ?out1 ! j" if "j < length ?out1" for j
    using that pre by (metis nth_take)
  have pre0: "take (length out) out' = out"
  proof -
    have "take (length out) out' = take (length out) (take (length ?out1) out')"
      by (simp add: min_def)
    also have "\<dots> = take (length out) ?out1" by (simp only: pre)
    also have "\<dots> = out" by simp
    finally show ?thesis .
  qed
  have step: "out' ! (length out + k) = out' ! (length out + k - nat a)" if "k < Suc l" for k
  proof (cases k)
    case 0
    have "nat (int (length out) - a) = length out - nat a" using Suc.prems by simp
    moreover have "length out - nat a < length out" using Suc.prems by simp
    ultimately show ?thesis using 0 nth_pre [of "length out"] nth_pre [of "length out - nat a"]
      by (simp add: nth_append)
  next
    case (Suc k')
    then have "k' < l" using that by simp
    with cp have "out' ! (length ?out1 + k') = out' ! (length ?out1 + k' - nat a)" by blast
    then show ?thesis using Suc by simp
  qed
  show ?case
    apply (rule exI [of _ out'])
    using r idx len pre0 step by simp
qed

theorem copyLoop_advances_witness:
  "(1::int) \<le> 2 \<and> (2::int) \<le> int (length [1, 2 :: byte])
   \<and> (\<exists>out'. copyLoop [1, 2] 2 2 = Inr out' \<and> length out' = 4 \<and> out' ! 3 = out' ! 1)"
proof -
  have a: "(1::int) \<le> 2" and b: "(2::int) \<le> int (length [1, 2 :: byte])" by simp_all
  from copyLoop_advances [OF a b, of 2] obtain out' where
    r: "copyLoop [1, 2] 2 2 = Inr out'" and len: "length out' = length [1, 2 :: byte] + 2" and
    cp: "\<forall>k<2. out' ! (length [1, 2 :: byte] + k) = out' ! (length [1, 2 :: byte] + k - nat 2)"
    by blast
  from cp have "out' ! (length [1, 2 :: byte] + 1) = out' ! (length [1, 2 :: byte] + 1 - nat 2)"
    by simp
  then have "out' ! 3 = out' ! 1" by (simp add: numeral_3_eq_3)
  with r len a b show ?thesis by auto
qed

text \<open>
  The claim C9 as the spec states it, one position read in every iteration, fails: at
  \<open>out = [1, 2]\<close>, address 2 and length 2 the loop appends \<open>1, 2\<close>, not twice the byte
  at index \<open>out.Len() - address = 0\<close>.
\<close>

theorem copyLoop_same_position_counterexample:
  "copyLoop [1, 2 :: byte] 2 2 \<noteq> Inr ([1, 2] @ replicate 2 ([1, 2] ! (2 - 2)))"
  by (simp add: numeral_2_eq_2 index_def)

section \<open>Properties of the symbol stream\<close>

lemma shl1_small:
  assumes "k < 63"
  shows "shl1 k = 2 ^ k"
proof -
  have "shl1 k = sint (word_of_int (2 ^ k) :: 64 word)"
    by (simp add: shl1_def push_bit_eq_mult)
  also have "\<dots> = signed_take_bit (LENGTH(64) - 1) (2 ^ k :: int)"
    by (rule sint_sbintrunc')
  also have "\<dots> = signed_take_bit 63 (2 ^ k :: int)" by simp
  also have "\<dots> = 2 ^ k"
  proof (rule signed_take_bit_int_eq_self)
    have "(0::int) \<le> 2 ^ k" by simp
    moreover have "- (2 ^ 63) \<le> (0::int)" by simp
    ultimately show "- (2 ^ 63) \<le> (2::int) ^ k" by (rule order_trans [rotated])
    show "(2::int) ^ k < 2 ^ 63" by (rule power_strict_increasing) (use assms in simp_all)
  qed
  finally show ?thesis .
qed

text \<open>Up to \<open>2^62\<close> the loop of \<open>bitLen\<close> returns the least \<open>r\<close> with \<open>n \<le> 2^r\<close>.\<close>

lemma bitLen_loop_char:
  assumes "n \<le> 2 ^ 62" "k \<le> 62" "\<forall>j<k. 2 ^ j < n"
  shows "\<exists>r. bitLen_loop n k = Some r \<and> r \<le> 62 \<and> n \<le> 2 ^ r \<and> (\<forall>j<r. 2 ^ j < n)"
  using assms
proof (induction "62 - k" arbitrary: k)
  case 0
  then have k: "k = 62" by simp
  then have "\<not> shl1 k < n" using 0 by (simp add: shl1_small)
  then have "bitLen_loop n k = Some k" by (subst bitLen_loop.simps) simp
  then show ?case using 0 k by auto
next
  case (Suc d)
  then have k: "k < 62" by simp
  show ?case
  proof (cases "shl1 k < n")
    case True
    then have lt: "2 ^ k < n" using k by (simp add: shl1_small)
    have "\<forall>j<Suc k. 2 ^ j < n" using Suc.prems(3) lt by (simp add: less_Suc_eq)
    moreover have "Suc k \<le> 62" "d = 62 - Suc k" using k Suc.hyps(2) by simp_all
    ultimately obtain r where
      "bitLen_loop n (Suc k) = Some r \<and> r \<le> 62 \<and> n \<le> 2 ^ r \<and> (\<forall>j<r. 2 ^ j < n)"
      using Suc.hyps(1) [of "Suc k"] Suc.prems(1) by blast
    moreover have "bitLen_loop n k = bitLen_loop n (Suc k)"
      using True k by (subst bitLen_loop.simps) simp
    ultimately show ?thesis by auto
  next
    case False
    then have "bitLen_loop n k = Some k" by (subst bitLen_loop.simps) simp
    moreover have "n \<le> 2 ^ k" using False k by (simp add: shl1_small)
    ultimately show ?thesis using Suc.prems k by auto
  qed
qed

lemma bitLen_char:
  assumes "n \<le> 2 ^ 62"
  shows "\<exists>r. bitLen n = Some r \<and> r \<le> 62 \<and> n \<le> 2 ^ r \<and> (\<forall>j<r. 2 ^ j < n)"
  unfolding bitLen_def using bitLen_loop_char [OF assms, of 0] by simp

lemma bitLen_power_of_two:
  assumes "k \<le> 62"
  shows "bitLen (2 ^ k) = Some k"
proof -
  have "(2::int) ^ k \<le> 2 ^ 62" by (rule power_increasing) (use assms in simp_all)
  from bitLen_char [OF this] obtain r where
    r: "bitLen (2 ^ k) = Some r" "(2::int) ^ k \<le> 2 ^ r" "\<forall>j<r. (2::int) ^ j < 2 ^ k" by blast
  from r(2) have "k \<le> r" by simp
  moreover have "\<not> k < r" using r(3) by auto
  ultimately show ?thesis using r(1) by simp
qed

lemma bitLen_loop_ge: "bitLen_loop n k = Some r \<Longrightarrow> k \<le> r"
proof (induction n k rule: bitLen_loop.induct)
  case (1 n k)
  show ?case
  proof (cases "shl1 k < n \<and> \<not> 64 \<le> k")
    case True
    then have "bitLen_loop n k = bitLen_loop n (Suc k)" by (subst bitLen_loop.simps) simp
    with "1.prems" "1.IH" True have "Suc k \<le> r" by simp
    then show ?thesis by simp
  next
    case False
    then have "bitLen_loop n k = None \<or> bitLen_loop n k = Some k"
      by (subst bitLen_loop.simps, subst (2) bitLen_loop.simps) auto
    with "1.prems" show ?thesis by auto
  qed
qed

lemma bitLen_positive:
  assumes "bitLen n = Some r" "1 < n"
  shows "0 < r"
proof -
  have "shl1 0 < n" using assms(2) by (simp add: shl1_def)
  then have "bitLen_loop n 0 = bitLen_loop n (Suc 0)" by (subst bitLen_loop.simps) simp
  with assms(1) have "bitLen_loop n (Suc 0) = Some r" by (simp add: bitLen_def)
  then have "Suc 0 \<le> r" by (rule bitLen_loop_ge)
  then show ?thesis by simp
qed

lemma upto_map_int: "[0 .. int n - 1] = map int [0..<n]"
  by (rule nth_equalityI) simp_all

lemma upto_map_nat: "0 \<le> w \<Longrightarrow> [0 .. w - 1] = map int [0..<nat w]"
  using upto_map_int [of "nat w"] by simp

lemma min_le_shift: "j < a \<Longrightarrow> (l \<le> p + j) = (min a (l - p) \<le> (j::nat))"
  by arith

text \<open>
  A fold that multiplies by the radix and adds, from the last index down to the first,
  and skips the indices from \<open>m\<close> on, builds the number whose digit \<open>j - k\<close> is \<open>g j\<close>.
\<close>

lemma foldr_digits:
  fixes g :: "nat \<Rightarrow> int"
  assumes "m \<le> n"
  shows "foldr (\<lambda>j acc. if m \<le> j then acc else acc * r + g j) [k..<n] 0
         = (\<Sum>j\<in>{k..<m}. g j * r ^ (j - k))"
  using assms
proof (induction "n - k" arbitrary: k)
  case 0
  then have a: "[k..<n] = []" and b: "{k..<m} = {}" by auto
  show ?case unfolding a b by simp
next
  case (Suc d)
  then have kn: "k < n" by simp
  then have l: "[k..<n] = k # [Suc k..<n]" by (simp add: upt_rec)
  have IH: "foldr (\<lambda>j acc. if m \<le> j then acc else acc * r + g j) [Suc k..<n] 0
         = (\<Sum>j\<in>{Suc k..<m}. g j * r ^ (j - Suc k))"
    using Suc by (intro Suc.hyps(1)) auto
  show ?case
  proof (cases "m \<le> k")
    case True
    then have "{k..<m} = {}" "{Suc k..<m} = {}" by auto
    with IH l True show ?thesis by simp
  next
    case False
    then have s: "{k..<m} = insert k {Suc k..<m}" by auto
    have "(\<Sum>j\<in>{Suc k..<m}. g j * r ^ (j - k)) = (\<Sum>j\<in>{Suc k..<m}. g j * r ^ (j - Suc k)) * r"
      unfolding sum_distrib_right
    proof (rule sum.cong [OF refl])
      fix x assume "x \<in> {Suc k..<m}"
      then have "x - k = Suc (x - Suc k)" by auto
      then show "g x * r ^ (x - k) = g x * r ^ (x - Suc k) * r" by simp
    qed
    with IH l False s show ?thesis by simp
  qed
qed

lemma Pack_elem_sum:
  assumes "0 < w" "0 \<le> i"
  shows "Pack_elem d w r i =
           (\<Sum>j<min (nat w) (length d - nat i * nat w). d ! (nat i * nat w + j) * r ^ j)"
proof -
  let ?m = "min (nat w) (length d - nat i * nat w)"
  have iw: "i * w = int (nat i * nat w)" using assms by (simp add: nat_mult_distrib)
  have "Pack_elem d w r i =
    foldr (\<lambda>j acc. if i * w + j \<ge> int (length d) then acc else acc * r + d ! nat (i * w + j))
      [0 .. w - 1] 0"
    by (simp add: Pack_elem_def foldl_conv_foldr Let_def)
  also have "\<dots> = foldr (\<lambda>j acc. if i * w + int j \<ge> int (length d) then acc
                                  else acc * r + d ! nat (i * w + int j)) [0..<nat w] 0"
    using assms by (simp add: upto_map_nat foldr_map comp_def)
  also have "\<dots> = foldr (\<lambda>j acc. if ?m \<le> j then acc else acc * r + d ! (nat i * nat w + j))
                        [0..<nat w] 0"
  proof (rule foldr_cong [OF refl refl])
    fix j acc assume "j \<in> set [0..<nat w]"
    then have jw: "j < nat w" by simp
    have e: "i * w + int j = int (nat i * nat w + j)" using iw by simp
    have "(length d \<le> nat i * nat w + j) = (?m \<le> j)"
      using jw by (rule min_le_shift)
    then have "(int (length d) \<le> i * w + int j) = (?m \<le> j)"
      unfolding e by (simp only: of_nat_le_iff)
    moreover have "nat (i * w + int j) = nat i * nat w + j" by (simp only: e nat_int)
    ultimately show
      "(if int (length d) \<le> i * w + int j then acc else acc * r + d ! nat (i * w + int j))
       = (if ?m \<le> j then acc else acc * r + d ! (nat i * nat w + j))" by simp
  qed
  also have "\<dots> = (\<Sum>j\<in>{0..<?m}. d ! (nat i * nat w + j) * r ^ (j - 0))"
    by (rule foldr_digits) simp
  finally show ?thesis by (simp add: lessThan_atLeast0)
qed

lemma tdiv_nonneg: "0 \<le> a \<Longrightarrow> 0 < b \<Longrightarrow> tdiv a b = a div b"
  by (cases "a = 0") (simp_all add: tdiv_def)

text \<open>
  Claim C7, as the code has it. When \<open>bitLen(NbSymbs)\<close> returns \<open>wordLen\<close>,
  \<open>NbSymbs > 1\<close> and \<open>wordLen < nbBits\<close>, \<open>Pack(nbBits)\<close> returns
  \<open>\<lceil>len(D) / wordsPerElem\<rceil>\<close> integers with
  \<open>wordsPerElem = \<lfloor>(nbBits - 1) / wordLen\<rfloor>\<close>, and element \<open>i\<close> is the group
  \<open>D[i * wordsPerElem ..]\<close> read as digits in base \<open>2^wordLen\<close> with the first symbol
  of the group as the least significant digit: symbol \<open>j\<close> of the group has weight
  \<open>(2^wordLen)^j\<close>. In the last group the absent symbols contribute nothing and the
  symbols present keep these low-order positions.
\<close>

theorem Pack_little_endian:
  assumes "bitLen (NbSymbs s) = Some wordLen" "1 < NbSymbs s" "int wordLen < nbBits"
  shows "\<exists>packed. Pack s nbBits = Some (Inr packed) \<and>
      (let w = (nbBits - 1) div int wordLen in
         int (length packed) = (int (length (D s)) + w - 1) div w \<and>
         (\<forall>i < length packed.
            packed ! i = (\<Sum>j<min (nat w) (length (D s) - i * nat w).
                           D s ! (i * nat w + j) * (2 ^ wordLen) ^ j)))"
proof -
  let ?w = "(nbBits - 1) div int wordLen"
  let ?n = "(int (length (D s)) + ?w - 1) div ?w"
  have wl: "0 < wordLen" using assms(1,2) by (rule bitLen_positive)
  have w: "0 < ?w" using assms wl by (simp add: pos_imp_zdiv_pos_iff)
  have tw: "tdiv (nbBits - 1) (int wordLen) = ?w" using assms wl by (simp add: tdiv_nonneg)
  have tn: "tdiv (int (length (D s)) + ?w - 1) ?w = ?n" using w by (simp add: tdiv_nonneg)
  have n0: "0 \<le> ?n" using w by (simp add: pos_imp_zdiv_nonneg_iff)
  let ?packed = "map (Pack_elem (D s) ?w (2 ^ wordLen)) [0 .. ?n - 1]"
  have P: "Pack s nbBits = Some (Inr ?packed)"
    using assms wl w n0 by (simp add: Pack_def tw tn Let_def)
  have len: "int (length ?packed) = ?n" using n0 by simp
  have el: "?packed ! i = (\<Sum>j<min (nat ?w) (length (D s) - i * nat ?w).
                           D s ! (i * nat ?w + j) * (2 ^ wordLen) ^ j)" if "i < length ?packed" for i
  proof -
    from that have "int i \<le> ?n - 1" by simp
    then have "?packed ! i = Pack_elem (D s) ?w (2 ^ wordLen) (int i)" using that by simp
    then show ?thesis using Pack_elem_sum [OF w, of "int i" "D s" "2 ^ wordLen"] by simp
  qed
  show ?thesis
    apply (rule exI [of _ ?packed])
    using P len el by (simp add: Let_def)
qed

theorem Pack_little_endian_witness:
  "bitLen (NbSymbs \<lparr>D = [1, 2, 3], NbSymbs = 16\<rparr>) = Some 4
   \<and> 1 < NbSymbs \<lparr>D = [1, 2, 3], NbSymbs = 16\<rparr> \<and> int 4 < 9
   \<and> (\<exists>packed. Pack \<lparr>D = [1, 2, 3], NbSymbs = 16\<rparr> 9 = Some (Inr packed) \<and> length packed = 2)"
proof -
  have a: "bitLen (NbSymbs \<lparr>D = [1, 2, 3], NbSymbs = 16\<rparr>) = Some 4"
    using bitLen_power_of_two [of 4] by simp
  have b: "1 < NbSymbs \<lparr>D = [1, 2, 3], NbSymbs = 16\<rparr>" and c: "int 4 < 9" by simp_all
  from Pack_little_endian [OF a b c] obtain packed where
    p: "Pack \<lparr>D = [1, 2, 3], NbSymbs = 16\<rparr> 9 = Some (Inr packed)" and
    l: "int (length packed) = (int (length (D \<lparr>D = [1, 2, 3], NbSymbs = 16\<rparr>)) + (9 - 1) div int 4 - 1)
          div ((9 - 1) div int 4)"
    unfolding Let_def by blast
  from l have "length packed = 2" by simp
  with a b c p show ?thesis by blast
qed

text \<open>
  The claim C7 as the spec states it, the first symbol of a group as the most significant
  digit, fails: the group \<open>1, 2\<close> over sixteen symbols packs to \<open>2 * 16 + 1\<close>, not to
  \<open>1 * 16 + 2\<close>.
\<close>

theorem Pack_big_endian_counterexample:
  "Pack \<lparr>D = [1, 2], NbSymbs = 16\<rparr> 9 \<noteq> Some (Inr [1 * 16 + 2])"
  by code_simp

text \<open>
  Claim C8 fails on the code. Over 256 symbols and elements of 377 bits an element holds
  47 symbols; for the one symbol of \<open>D = [1]\<close> \<open>ReadBytes\<close> has to skip \<open>46 * 8 = 368\<close>
  bits, and the conversion \<open>uint8(368)\<close> leaves 112: it reads the symbol from the wrong
  place and returns \<open>D = [0]\<close>.
\<close>

theorem FillBytes_ReadBytes_loses_symbol:
  "FillBytes \<lparr>D = [1], NbSymbs = 256\<rparr> (replicate 52 0) 377
     = Some (Inr ([0, 0, 0, 1] @ replicate 47 0 @ [1]))
   \<and> ReadBytes \<lparr>D = [], NbSymbs = 256\<rparr> ([0, 0, 0, 1] @ replicate 47 0 @ [1]) 377
     = Some (Inr \<lparr>D = [0], NbSymbs = 256\<rparr>)"
  by code_simp

subsection \<open>Bits written and read back\<close>

text \<open>Reading back what the bit writer wrote: \<open>n\<close> bits hold a value modulo \<open>2^n\<close>.\<close>

lemma valOf_foldl:
  "foldl (\<lambda>acc b. 2 * acc + (if b then 1 else 0)) a bs = a * 2 ^ length bs + valOf bs"
proof (induction bs arbitrary: a)
  case Nil
  show ?case by (simp add: valOf_def)
next
  case (Cons b bs)
  show ?case
    using Cons [of "2 * a + (if b then 1 else 0)"] Cons [of "if b then 1 else 0"]
    by (simp add: valOf_def algebra_simps)
qed

lemma valOf_Cons: "valOf (b # bs) = (if b then 1 else 0) * 2 ^ length bs + valOf bs"
  using valOf_foldl [of "if b then 1 else 0" bs] by (simp add: valOf_def)

lemma bitsOf_Suc: "bitsOf v (Suc n) = bit v n # bitsOf v n"
  by (simp add: bitsOf_def)

lemma length_bitsOf [simp]: "length (bitsOf v n) = n"
  by (simp add: bitsOf_def)

lemma valOf_bitsOf: "valOf (bitsOf v n) = take_bit n v"
proof (induction n)
  case 0
  show ?case by (simp add: bitsOf_def valOf_def)
next
  case (Suc n)
  show ?case
    by (simp add: bitsOf_Suc valOf_Cons Suc take_bit_Suc_from_most)
qed

lemma valOf_bitsOf_byte: "word_of_int (valOf (bitsOf (uint (b :: byte)) 8)) = b"
proof -
  have "uint b < 2 ^ 8" using uint_lt2p [of b] by simp
  then have "take_bit 8 (uint b) = uint b"
    by (intro take_bit_int_eq_self) simp_all
  then show ?thesis by (simp add: valOf_bitsOf)
qed

subsection \<open>The round trip of \<open>FillBytes\<close> and \<open>ReadBytes\<close> for short skips\<close>

lemma bigval_snoc: "bigval r (xs @ [x]) = bigval r xs * r + x"
  by (simp add: bigval_def)

lemma bitsOf_0: "bitsOf 0 n = replicate n False"
  by (simp add: bitsOf_def map_replicate_const)

lemma bitsOf_add: "bitsOf v (a + b) = bitsOf (drop_bit b v) a @ bitsOf v b"
proof (induction a)
  case 0
  show ?case by (simp add: bitsOf_def)
next
  case (Suc a)
  have "bit (drop_bit b v) a = bit v (a + b)" by (simp add: bit_drop_bit_eq add.commute)
  then show ?case using Suc by (simp add: bitsOf_Suc)
qed

lemma bitsOf_take_bit: "bitsOf (take_bit n v) n = bitsOf v n"
  by (simp add: bitsOf_def bit_take_bit_iff)

lemma bitsOf_shift_add:
  assumes "0 \<le> x" "x < 2 ^ b"
  shows "bitsOf (V * 2 ^ b + x) (m + b) = bitsOf V m @ bitsOf x b"
proof -
  have d: "drop_bit b (V * 2 ^ b + x) = V"
    using assms by (simp add: drop_bit_eq_div div_pos_pos_trivial)
  have t: "take_bit b (V * 2 ^ b + x) = x"
    using assms by (simp add: take_bit_eq_mod)
  have "bitsOf (V * 2 ^ b + x) b = bitsOf (take_bit b (V * 2 ^ b + x)) b"
    by (simp only: bitsOf_take_bit)
  then show ?thesis by (simp add: bitsOf_add d t)
qed

lemma bitsOf_bigval:
  assumes "\<forall>x\<in>set xs. 0 \<le> x \<and> x < 2 ^ b" "b * length xs \<le> m"
  shows "bitsOf (bigval (2 ^ b) xs) m
           = replicate (m - b * length xs) False @ concat (map (\<lambda>x. bitsOf x b) xs)"
  using assms
proof (induction xs arbitrary: m rule: rev_induct)
  case Nil
  show ?case by (simp add: bigval_def bitsOf_0)
next
  case (snoc x xs)
  then have x: "0 \<le> x" "x < 2 ^ b" by simp_all
  from snoc.prems have m: "m = (m - b) + b" "b * length xs \<le> m - b" by simp_all
  have "bitsOf (bigval (2 ^ b) (xs @ [x])) m = bitsOf (bigval (2 ^ b) xs * 2 ^ b + x) ((m - b) + b)"
    using m(1) by (simp add: bigval_snoc)
  also have "\<dots> = bitsOf (bigval (2 ^ b) xs) (m - b) @ bitsOf x b"
    using x by (rule bitsOf_shift_add)
  also have "bitsOf (bigval (2 ^ b) xs) (m - b)
      = replicate (m - b - b * length xs) False @ concat (map (\<lambda>x. bitsOf x b) xs)"
    using snoc.prems m(2) by (intro snoc.IH) simp_all
  finally show ?case by (simp add: algebra_simps)
qed

lemma bigval_bound:
  assumes "\<forall>x\<in>set xs. 0 \<le> x \<and> x < r" "0 < r"
  shows "0 \<le> bigval r xs \<and> bigval r xs < r ^ length xs"
  using assms
proof (induction xs rule: rev_induct)
  case Nil
  show ?case by (simp add: bigval_def)
next
  case (snoc x xs)
  then have IH: "0 \<le> bigval r xs" "bigval r xs + 1 \<le> r ^ length xs" and x: "0 \<le> x" "x < r" by simp_all
  have "bigval r xs * r + x < (bigval r xs + 1) * r" using x by (simp add: algebra_simps)
  also have "\<dots> \<le> r ^ length xs * r" using IH(2) snoc.prems(2) by (intro mult_right_mono) simp_all
  finally have "bigval r xs * r + x < r ^ length (xs @ [x])" by (simp add: mult.commute)
  moreover have "0 \<le> bigval r xs * r + x" using IH(1) x snoc.prems(2) by simp
  ultimately show ?case by (simp add: bigval_snoc)
qed

lemma bigEndian_Suc: "bigEndian v (Suc n) = word_of_int (v div 256 ^ n) # bigEndian v n"
  by (simp add: bigEndian_def)

lemma bitsOf_byte: "bitsOf (uint (word_of_int x :: byte)) 8 = bitsOf x 8"
proof -
  have "uint (word_of_int x :: byte) = take_bit 8 x" by (simp add: uint_word_of_int_eq)
  then show ?thesis by (simp only: bitsOf_take_bit)
qed

lemma bitsOfBytes_bigEndian: "bitsOfBytes (bigEndian v n) = bitsOf v (8 * n)"
proof (induction n)
  case 0
  show ?case by (simp add: bigEndian_def bitsOfBytes_def bitsOf_def)
next
  case (Suc n)
  have "(256::int) ^ n = 2 ^ (8 * n)" by (simp add: power_mult)
  then have d: "v div 256 ^ n = drop_bit (8 * n) v" by (simp add: drop_bit_eq_div)
  have "bitsOfBytes (bigEndian v (Suc n)) = bitsOf (v div 256 ^ n) 8 @ bitsOfBytes (bigEndian v n)"
    by (simp add: bigEndian_Suc bitsOfBytes_def bitsOf_byte)
  also have "\<dots> = bitsOf (drop_bit (8 * n) v) 8 @ bitsOf v (8 * n)" by (simp only: Suc d)
  also have "\<dots> = bitsOf v (8 + 8 * n)" by (simp only: bitsOf_add)
  finally show ?case by simp
qed

lemma bitsOfBytes_append: "bitsOfBytes (xs @ ys) = bitsOfBytes xs @ bitsOfBytes ys"
  by (simp add: bitsOfBytes_def)

lemma TryReadBits_prefix:
  "TryReadBits \<lparr>rbits = bs1 @ bs2, TryError = False\<rparr> (length bs1)
     = (valOf bs1 mod 2 ^ 64, \<lparr>rbits = bs2, TryError = False\<rparr>)"
  by (simp add: TryReadBits_def)

lemma TryReadBits_word:
  assumes "0 \<le> x" "x < 2 ^ b" "b \<le> 64"
  shows "TryReadBits \<lparr>rbits = bitsOf x b @ rest, TryError = False\<rparr> b
           = (x, \<lparr>rbits = rest, TryError = False\<rparr>)"
proof -
  have "(2::int) ^ b \<le> 2 ^ 64" by (rule power_increasing) (use assms in simp_all)
  with assms have x64: "x < 2 ^ 64" by linarith
  have "valOf (bitsOf x b) = x"
    using assms by (simp add: valOf_bitsOf take_bit_int_eq_self)
  moreover have "x mod 2 ^ 64 = x" using assms(1) x64 by (rule mod_pos_pos_trivial)
  ultimately show ?thesis
    using TryReadBits_prefix [of "bitsOf x b" rest] by simp
qed

lemma TryReadBits_skip:
  "snd (TryReadBits \<lparr>rbits = replicate k False @ rest, TryError = False\<rparr> k)
     = \<lparr>rbits = rest, TryError = False\<rparr>"
  using TryReadBits_prefix [of "replicate k False" rest] by simp

lemma uint8_small: "0 \<le> x \<Longrightarrow> x < 256 \<Longrightarrow> uint8 x = nat x"
  by (simp add: uint8_def)

text \<open>Past the end of \<open>D\<close> the inner loop of \<open>ReadBytes\<close> reads nothing.\<close>

lemma ReadBytes_words_skip:
  assumes "length d \<le> base + j0"
  shows "ReadBytes_words bpw (int base) (map int [j0..<W]) d w = (d, w)"
  using assms
proof (induction "W - j0" arbitrary: j0)
  case 0
  then show ?case by simp
next
  case (Suc k)
  then have "j0 < W" by simp
  then have l: "[j0..<W] = j0 # [Suc j0..<W]" by (simp add: upt_rec)
  have "ReadBytes_words bpw (int base) (map int [Suc j0..<W]) d w = (d, w)"
    using Suc by (intro Suc.hyps(1)) simp_all
  then show ?case using Suc.prems by (simp add: l)
qed

lemma ReadBytes_words_read:
  assumes "j0 \<le> length ws" "base + length ws \<le> length d"
    and "length ws \<le> W" "length ws = W \<or> base + length ws = length d"
    and "\<forall>x\<in>set ws. 0 \<le> x \<and> x < 2 ^ bpw" "bpw \<le> 62"
  shows "ReadBytes_words (int bpw) (int base) (map int [j0..<W]) d
           \<lparr>rbits = concat (map (\<lambda>x. bitsOf x bpw) (drop j0 ws)) @ rest, TryError = False\<rparr>
         = (take (base + j0) d @ drop j0 ws @ drop (base + length ws) d,
            \<lparr>rbits = rest, TryError = False\<rparr>)"
  using assms(1,2,4)
proof (induction "length ws - j0" arbitrary: j0 d)
  case 0
  then have j: "j0 = length ws" by simp
  have "ReadBytes_words (int bpw) (int base) (map int [j0..<W]) d
           \<lparr>rbits = rest, TryError = False\<rparr> = (d, \<lparr>rbits = rest, TryError = False\<rparr>)"
  proof (cases "length ws = W")
    case True
    then show ?thesis using j by simp
  next
    case False
    with "0.prems" have "base + length ws = length d" by simp
    then show ?thesis using j by (simp add: ReadBytes_words_skip)
  qed
  then show ?case using j by simp
next
  case (Suc k)
  then have j: "j0 < length ws" by simp
  with assms(3) have W: "j0 < W" by simp
  then have l: "[j0..<W] = j0 # [Suc j0..<W]" by (simp add: upt_rec)
  from j Suc.prems have inb: "base + j0 < length d" by simp
  let ?x = "ws ! j0"
  have x: "0 \<le> ?x" "?x < 2 ^ bpw" using assms(5) j by simp_all
  have dr: "drop j0 ws = ?x # drop (Suc j0) ws" using j by (simp add: Cons_nth_drop_Suc)
  let ?rest' = "concat (map (\<lambda>x. bitsOf x bpw) (drop (Suc j0) ws)) @ rest"
  have u: "uint8 (int bpw) = bpw" using assms(6) by (simp add: uint8_def)
  have rd: "TryReadBits \<lparr>rbits = bitsOf ?x bpw @ ?rest', TryError = False\<rparr> bpw
           = (?x, \<lparr>rbits = ?rest', TryError = False\<rparr>)"
    using x assms(6) by (intro TryReadBits_word) simp_all
  let ?d1 = "d[base + j0 := ?x]"
  have IH: "ReadBytes_words (int bpw) (int base) (map int [Suc j0..<W]) ?d1
           \<lparr>rbits = ?rest', TryError = False\<rparr>
         = (take (base + Suc j0) ?d1 @ drop (Suc j0) ws @ drop (base + length ws) ?d1,
            \<lparr>rbits = rest, TryError = False\<rparr>)"
    using Suc.hyps(2) j Suc.prems by (intro Suc.hyps(1)) simp_all
  have t: "take (base + Suc j0) ?d1 = take (base + j0) d @ [?x]"
    using inb by (simp add: take_Suc_conv_app_nth)
  have d: "drop (base + length ws) ?d1 = drop (base + length ws) d"
    using j by simp
  have n: "nat (int base + int j0) = base + j0" by simp
  have c: "\<not> int (length d) \<le> int base + int j0" using inb by simp
  show ?case
    unfolding l dr
    using c t by (simp add: u rd IH d n del: upt_Suc)
qed

lemma ceil_div_upper:
  assumes "0 < (W::nat)"
  shows "n \<le> (n + W - 1) div W * W"
proof -
  let ?m = "n + W - 1"
  have "?m = ?m div W * W + ?m mod W" by simp
  moreover have "?m mod W < W" using assms by simp
  ultimately have "?m < ?m div W * W + W" by linarith
  then show ?thesis using assms by linarith
qed

lemma ceil_div_lower:
  assumes "0 < (W::nat)" "i < (n + W - 1) div W"
  shows "i * W < n"
proof -
  let ?m = "n + W - 1"
  from assms(2) have "Suc i \<le> ?m div W" by simp
  then have "Suc i * W \<le> ?m div W * W" by (rule mult_le_mono1)
  also have "\<dots> \<le> ?m" by simp
  finally have "i * W + W \<le> n + W - 1" by simp
  then show ?thesis using assms(1) by linarith
qed

lemma length_chunk: "length (chunk d W i) = min W (length d - i * W)"
  by (simp add: chunk_def)

lemma set_chunk: "set (chunk d W i) \<subseteq> set d"
  unfolding chunk_def by (meson set_take_subset set_drop_subset subset_trans)

lemma elemBits_layout:
  assumes "\<forall>x\<in>set d. 0 \<le> x \<and> x < 2 ^ bpw" "bpw * W \<le> 8 * B"
  shows "elemBits d bpw W B i
           = replicate (8 * B - bpw * W) False
             @ replicate ((W - length (chunk d W i)) * bpw) False
             @ concat (map (\<lambda>x. bitsOf x bpw) (chunk d W i))"
proof -
  let ?c = "chunk d W i"
  have k: "length ?c \<le> W" by (simp add: length_chunk)
  then have "bpw * length ?c \<le> bpw * W" by simp
  with assms(2) have le: "bpw * length ?c \<le> 8 * B" by linarith
  have r: "\<forall>x\<in>set ?c. 0 \<le> x \<and> x < 2 ^ bpw" using assms(1) set_chunk by blast
  have "8 * B - bpw * length ?c = (8 * B - bpw * W) + (W - length ?c) * bpw"
    using k assms(2) by (simp add: algebra_simps diff_mult_distrib2) 
  then have "replicate (8 * B - bpw * length ?c) False
      = replicate (8 * B - bpw * W) False @ replicate ((W - length ?c) * bpw) False"
    by (simp only: replicate_add)
  then show ?thesis
    unfolding elemBits_def using bitsOf_bigval [OF r le] by simp
qed

lemma uint8_of_nat: "n < 256 \<Longrightarrow> uint8 (int n) = n"
  by (simp add: uint8_def)

lemma ReadBytes_loop_restores:
  assumes W: "0 < W" and bpw: "bpw \<le> 62"
    and rng: "\<forall>x\<in>set d0. 0 \<le> x \<and> x < 2 ^ bpw"
    and fit: "bpw * W \<le> 8 * B" and pad: "8 * B - bpw * W < 256"
    and skip: "(W - 1) * bpw < 256"
    and E: "E = (length d0 + W - 1) div W"
    and i0: "i0 \<le> E" and len: "length d = length d0"
  shows "ReadBytes_loop (int bpw) (int W) (int B) (int E) (map int [i0..<E]) d
           \<lparr>rbits = concat (map (elemBits d0 bpw W B) [i0..<E]) @ rest, TryError = False\<rparr>
         = (take (i0 * W) d @ drop (i0 * W) d0, \<lparr>rbits = rest, TryError = False\<rparr>)"
  using i0 len
proof (induction "E - i0" arbitrary: i0 d)
  case 0
  then have e: "i0 = E" by simp
  have "length d0 \<le> E * W" unfolding E using W by (rule ceil_div_upper)
  then show ?case using e "0.prems" by simp
next
  case (Suc m)
  then have lt: "i0 < E" by simp
  then have l: "[i0..<E] = i0 # [Suc i0..<E]" by (simp add: upt_rec)
  let ?n = "length d0"
  let ?c = "chunk d0 W i0"
  let ?k = "length ?c"
  have base: "i0 * W < ?n" using W lt unfolding E by (rule ceil_div_lower)
  have k: "?k = min W (?n - i0 * W)" by (rule length_chunk)
  have k1: "?k \<le> W" "i0 * W + ?k \<le> length d" "0 < ?k"
    using k base W Suc.prems by simp_all
  have last: "?k = ?n - i0 * W" if "Suc i0 = E"
  proof -
    have "?n \<le> E * W" unfolding E using W by (rule ceil_div_upper)
    with that have "?n \<le> Suc i0 * W" by simp
    then have "?n \<le> W + i0 * W" by simp
    then have "?n - i0 * W \<le> W" by linarith
    then show ?thesis using k by simp
  qed
  have full: "?k = W" if "Suc i0 \<noteq> E"
  proof -
    from that lt have "Suc i0 < E" by simp
    then have "Suc i0 * W < ?n" using W unfolding E by (intro ceil_div_lower)
    then show ?thesis using k by simp
  qed
  have disj: "?k = W \<or> i0 * W + ?k = length d"
    using last full base Suc.prems by (cases "Suc i0 = E") simp_all
  let ?tail = "concat (map (elemBits d0 bpw W B) [Suc i0..<E]) @ rest"
  let ?words = "concat (map (\<lambda>x. bitsOf x bpw) ?c)"
  let ?skipbits = "replicate ((W - ?k) * bpw) False"
  have bits: "concat (map (elemBits d0 bpw W B) [i0..<E]) @ rest
      = replicate (8 * B - bpw * W) False @ (?skipbits @ ?words @ ?tail)"
    unfolding l using elemBits_layout [OF rng fit, of i0] by simp
  have u1: "uint8 (8 * int B - int bpw * int W) = 8 * B - bpw * W"
  proof -
    have "8 * int B - int bpw * int W = int (8 * B - bpw * W)"
      using fit by (simp add: of_nat_diff)
    then have "uint8 (8 * int B - int bpw * int W) = uint8 (int (8 * B - bpw * W))"
      by (simp only:)
    also have "\<dots> = 8 * B - bpw * W" using pad by (rule uint8_of_nat)
    finally show ?thesis .
  qed
  let ?r1 = "\<lparr>rbits = ?skipbits @ ?words @ ?tail, TryError = False\<rparr>"
  have w1: "snd (TryReadBits \<lparr>rbits = concat (map (elemBits d0 bpw W B) [i0..<E]) @ rest,
                                TryError = False\<rparr> (8 * B - bpw * W)) = ?r1"
    unfolding bits by (rule TryReadBits_skip)
  let ?r2 = "\<lparr>rbits = ?words @ ?tail, TryError = False\<rparr>"
  have w2: "(if int i0 + 1 = int E
             then snd (TryReadBits ?r1
                    (uint8 ((int W - (int (length d) - int i0 * int W)) * int bpw)))
             else ?r1) = ?r2"
  proof (cases "Suc i0 = E")
    case True
    have kk: "?k = length d - i0 * W" using last [OF True] Suc.prems by simp
    have "W - ?k \<le> W - 1" using k1(3) by linarith
    then have "(W - ?k) * bpw \<le> (W - 1) * bpw" by (rule mult_le_mono1)
    with skip have small: "(W - ?k) * bpw < 256" by linarith
    have "i0 * W \<le> length d" using base Suc.prems by simp
    then have "int (length d - i0 * W) = int (length d) - int i0 * int W"
      by (simp add: of_nat_diff)
    then have ik: "int ?k = int (length d) - int i0 * int W" by (simp only: kk)
    have "int (W - ?k) = int W - int ?k" using k1(1) by (simp add: of_nat_diff)
    then have "int ((W - ?k) * bpw) = (int W - int ?k) * int bpw" by simp
    then have "(int W - (int (length d) - int i0 * int W)) * int bpw = int ((W - ?k) * bpw)"
      by (simp only: ik)
    then have "uint8 ((int W - (int (length d) - int i0 * int W)) * int bpw)
        = uint8 (int ((W - ?k) * bpw))" by (simp only:)
    also have "\<dots> = (W - ?k) * bpw" using small by (rule uint8_of_nat)
    finally have "uint8 ((int W - (int (length d) - int i0 * int W)) * int bpw) = (W - ?k) * bpw" .
    then show ?thesis using True TryReadBits_skip [of "(W - ?k) * bpw" "?words @ ?tail"] by simp
  next
    case False
    then have "?k = W" by (rule full)
    moreover have "int i0 + 1 \<noteq> int E" using False by linarith
    ultimately show ?thesis by simp
  qed
  let ?d' = "take (i0 * W) d @ ?c @ drop (i0 * W + ?k) d"
  have words: "ReadBytes_words (int bpw) (int i0 * int W) [0 .. int W - 1] d ?r2
      = (?d', \<lparr>rbits = ?tail, TryError = False\<rparr>)"
  proof -
    have r: "\<forall>x\<in>set ?c. 0 \<le> x \<and> x < 2 ^ bpw" using rng set_chunk by blast
    have "ReadBytes_words (int bpw) (int (i0 * W)) (map int [0..<W]) d
           \<lparr>rbits = concat (map (\<lambda>x. bitsOf x bpw) (drop 0 ?c)) @ ?tail, TryError = False\<rparr>
         = (take (i0 * W + 0) d @ drop 0 ?c @ drop (i0 * W + ?k) d,
            \<lparr>rbits = ?tail, TryError = False\<rparr>)"
      using k1 disj r bpw by (intro ReadBytes_words_read) simp_all
    then show ?thesis by (simp add: upto_map_int)
  qed
  have len': "length ?d' = length d0" using k1 Suc.prems by simp
  have IH: "ReadBytes_loop (int bpw) (int W) (int B) (int E) (map int [Suc i0..<E]) ?d'
           \<lparr>rbits = ?tail, TryError = False\<rparr>
         = (take (Suc i0 * W) ?d' @ drop (Suc i0 * W) d0, \<lparr>rbits = rest, TryError = False\<rparr>)"
    using Suc.hyps(2) lt len' by (intro Suc.hyps(1)) simp_all
  have fin: "take (Suc i0 * W) ?d' @ drop (Suc i0 * W) d0 = take (i0 * W) d @ drop (i0 * W) d0"
  proof (cases "?k = W")
    case True
    have la: "length (take (i0 * W) d) = i0 * W" using base Suc.prems by simp
    have "take (Suc i0 * W) ?d' = take (i0 * W) d @ ?c"
      using la True by simp
    moreover have "?c @ drop (Suc i0 * W) d0 = drop (i0 * W) d0"
    proof -
      have "drop (Suc i0 * W) d0 = drop W (drop (i0 * W) d0)" by (simp add: add.commute)
      then show ?thesis unfolding chunk_def by (simp only: append_take_drop_id)
    qed
    ultimately show ?thesis by simp
  next
    case False
    with disj have e: "i0 * W + ?k = length d" by simp
    with False k1 have "length d0 < Suc i0 * W" using Suc.prems by simp
    then have "take (Suc i0 * W) ?d' = ?d'" "drop (Suc i0 * W) d0 = []" using len' by simp_all
    moreover have "drop (i0 * W + ?k) d = []" using e by simp
    moreover have "?c = drop (i0 * W) d0" using e Suc.prems unfolding chunk_def by simp
    ultimately show ?thesis by simp
  qed
  have lm: "map int [i0..<E] = int i0 # map int [Suc i0..<E]" using l by simp
  show ?case
    apply (subst lm)
    apply (subst ReadBytes_loop.simps)
    apply (simp only: Let_def u1 w1 w2 words prod.case IH fin)
    done
qed

lemma takeWhile_less_upt: "takeWhile (\<lambda>j. j < m) [0..<W] = [0..<min W m]"
proof (induction W)
  case 0
  show ?case by simp
next
  case (Suc W)
  show ?case
  proof (cases "W < m")
    case True
    then have "takeWhile (\<lambda>j. j < m) ([0..<W] @ [W]) = [0..<W] @ takeWhile (\<lambda>j. j < m) [W]"
      by (intro takeWhile_append2) simp
    then show ?thesis using True by (simp add: min_def)
  next
    case False
    show ?thesis
    proof (cases "W = 0")
      case True
      then show ?thesis using False by simp
    next
      case W: False
      then have m: "m < W \<or> m = W" using False by linarith
      show ?thesis
      proof (cases "m = W")
        case True
        then have "takeWhile (\<lambda>j. j < m) ([0..<W] @ [W]) = [0..<W] @ takeWhile (\<lambda>j. j < m) [W]"
          by (intro takeWhile_append2) simp
        then show ?thesis using True by (simp add: min_def)
      next
        case False
        with m have lt: "m < W" by simp
        then have "m \<in> set [0..<W]" "\<not> m < m" by simp_all
        then have "takeWhile (\<lambda>j. j < m) ([0..<W] @ [W]) = takeWhile (\<lambda>j. j < m) [0..<W]"
          by (rule takeWhile_append1)
        then show ?thesis using Suc lt by (simp add: min_def)
      qed
    qed
  qed
qed

lemma map_nth_chunk:
  assumes "b + k \<le> length d"
  shows "map (\<lambda>j. d ! (b + j)) [0..<k] = take k (drop b d)"
  using assms by (intro nth_equalityI) simp_all

lemma foldl_bigval_map: "foldl (\<lambda>e j. e * r + f j) 0 js = bigval r (map f js)"
  by (simp add: bigval_def foldl_map)

lemma FillBytes_elem_chunk:
  assumes "0 < W"
  shows "FillBytes_elem d (int W) r (int i) = bigval r (chunk d W i)"
proof -
  let ?n = "length d"
  let ?k = "min W (?n - i * W)"
  have idx: "map (\<lambda>j. int i * int W + j) [0 .. int W - 1] = map (\<lambda>j. int (i * W + j)) [0..<W]"
    by (simp add: upto_map_int)
  have tw: "takeWhile (\<lambda>absJ. absJ < int ?n) (map (\<lambda>j. int (i * W + j)) [0..<W])
      = map (\<lambda>j. int (i * W + j)) [0..<?k]"
  proof -
    have p: "(\<lambda>absJ. absJ < int ?n) \<circ> (\<lambda>j. int (i * W + j)) = (\<lambda>j. j < ?n - i * W)"
    proof (rule ext)
      fix j
      have "(int (i * W + j) < int ?n) = (i * W + j < ?n)" by (rule of_nat_less_iff)
      also have "\<dots> = (j < ?n - i * W)" by linarith
      finally show "((\<lambda>absJ. absJ < int ?n) \<circ> (\<lambda>j. int (i * W + j))) j = (j < ?n - i * W)"
        by (simp only: comp_def)
    qed
    have "takeWhile (\<lambda>absJ. absJ < int ?n) (map (\<lambda>j. int (i * W + j)) [0..<W])
        = map (\<lambda>j. int (i * W + j)) (takeWhile (\<lambda>j. j < ?n - i * W) [0..<W])"
      by (simp only: takeWhile_map p)
    then show ?thesis by (simp only: takeWhile_less_upt)
  qed
  have le: "i * W + ?k \<le> ?n \<or> ?k = 0" by linarith
  have ch: "map (\<lambda>j. d ! (i * W + j)) [0..<?k] = chunk d W i"
  proof (cases "?k = 0")
    case True
    then show ?thesis by (simp add: chunk_def min_def split: if_splits)
  next
    case False
    with le have "i * W + ?k \<le> ?n" by simp
    then have "map (\<lambda>j. d ! (i * W + j)) [0..<?k] = take ?k (drop (i * W) d)"
      by (rule map_nth_chunk)
    also have "\<dots> = take W (drop (i * W) d)" by (simp add: min_def)
    finally show ?thesis by (simp add: chunk_def)
  qed
  have "FillBytes_elem d (int W) r (int i)
      = foldl (\<lambda>elem absJ. elem * r + d ! nat absJ) 0 (map (\<lambda>j. int (i * W + j)) [0..<?k])"
    unfolding FillBytes_elem_def idx tw ..
  also have "\<dots> = foldl (\<lambda>e j. e * r + d ! (i * W + j)) 0 [0..<?k]"
    by (simp only: foldl_map nat_int)
  also have "\<dots> = bigval r (map (\<lambda>j. d ! (i * W + j)) [0..<?k])"
    by (rule foldl_bigval_map)
  finally show ?thesis by (simp only: ch)
qed

lemma length_bigEndian [simp]: "length (bigEndian v n) = n"
  by (simp add: bigEndian_def)

lemma FillBytes_loop_result:
  assumes "i0 \<le> E" "E * B \<le> length dst"
    and "\<forall>i<E. \<bar>FillBytes_elem d w r (int i)\<bar> < 256 ^ B"
  shows "FillBytes_loop d w (int B) r (map int [i0..<E]) dst
           = Inr (take (i0 * B) dst
                  @ concat (map (\<lambda>i. bigEndian \<bar>FillBytes_elem d w r (int i)\<bar> B) [i0..<E])
                  @ drop (E * B) dst)"
  using assms(1,2)
proof (induction "E - i0" arbitrary: i0 dst)
  case 0
  then show ?case by simp
next
  case (Suc m)
  then have lt: "i0 < E" by simp
  then have l: "[i0..<E] = i0 # [Suc i0..<E]" by (simp add: upt_rec)
  have le: "Suc i0 * B \<le> E * B" using lt by (intro mult_le_mono1) simp
  with Suc.prems have inb: "Suc i0 * B \<le> length dst" by linarith
  let ?bs = "bigEndian \<bar>FillBytes_elem d w r (int i0)\<bar> B"
  let ?dst1 = "take (i0 * B) dst @ ?bs @ drop (Suc i0 * B) dst"
  have sl: "slice dst (int i0 * int B) ((int i0 + 1) * int B)
      = Inr (take (nat ((int i0 + 1) * int B - int i0 * int B)) (drop (nat (int i0 * int B)) dst))"
  proof -
    have "(int i0 + 1) * int B = int (Suc i0 * B)" by (simp add: algebra_simps)
    then have "(int i0 + 1) * int B \<le> int (length dst)" using inb by (simp only: of_nat_le_iff)
    moreover have "int i0 * int B \<le> (int i0 + 1) * int B" by (simp add: algebra_simps)
    ultimately show ?thesis by (simp add: slice_def)
  qed
  have fb: "big_FillBytes (FillBytes_elem d w r (int i0)) (nat (int B)) = Inr ?bs"
    using assms(3) lt by (simp add: big_FillBytes_def)
  have n1: "nat (int i0 * int B) = i0 * B" by (simp add: nat_mult_distrib)
  have n2: "nat ((int i0 + 1) * int B) = Suc i0 * B"
  proof -
    have "(int i0 + 1) * int B = int (Suc i0 * B)" by (simp add: algebra_simps)
    then show ?thesis by (simp only: nat_int)
  qed
  have len1: "length ?dst1 = length dst" using inb by simp
  have IH: "FillBytes_loop d w (int B) r (map int [Suc i0..<E]) ?dst1
           = Inr (take (Suc i0 * B) ?dst1
                  @ concat (map (\<lambda>i. bigEndian \<bar>FillBytes_elem d w r (int i)\<bar> B) [Suc i0..<E])
                  @ drop (E * B) ?dst1)"
    using Suc.hyps(2) lt Suc.prems len1 by (intro Suc.hyps(1)) simp_all
  have la: "length (take (i0 * B) dst) = i0 * B" using inb by simp
  have t: "take (Suc i0 * B) ?dst1 = take (i0 * B) dst @ ?bs"
    using la by simp
  have dr: "drop (E * B) ?dst1 = drop (E * B) dst"
  proof -
    have "drop (E * B) ?dst1 = drop (E * B - Suc i0 * B) (drop (Suc i0 * B) dst)"
      using la le lt by simp
    also have "\<dots> = drop (E * B) dst" using le by simp
    finally show ?thesis .
  qed
  have lm: "map int [i0..<E] = int i0 # map int [Suc i0..<E]" using l by simp
  show ?case
    apply (subst lm)
    apply (subst FillBytes_loop.simps)
    apply (simp only: sl fb n1 n2 sum.case IH t dr l list.map concat.simps append_assoc)
    done
qed

lemma Uint32_foldl:
  "foldl (\<lambda>acc b. 256 * acc + uint (b :: byte)) a bs = a * 256 ^ length bs + Uint32 bs"
proof (induction bs arbitrary: a)
  case Nil
  show ?case by (simp add: Uint32_def)
next
  case (Cons b bs)
  show ?case
    using Cons [of "256 * a + uint b"] Cons [of "uint b"]
    by (simp add: Uint32_def algebra_simps)
qed

lemma Uint32_bigEndian: "Uint32 (bigEndian v k) = v mod 256 ^ k"
proof (induction k)
  case 0
  show ?case by (simp add: bigEndian_def Uint32_def)
next
  case (Suc k)
  have u: "uint (word_of_int (v div 256 ^ k) :: byte) = (v div 256 ^ k) mod 256"
    by (simp add: uint_word_of_int_eq take_bit_eq_mod)
  have "Uint32 (bigEndian v (Suc k))
      = foldl (\<lambda>acc b. 256 * acc + uint b) (uint (word_of_int (v div 256 ^ k) :: byte)) (bigEndian v k)"
    by (simp add: bigEndian_Suc Uint32_def)
  also have "\<dots> = ((v div 256 ^ k) mod 256) * 256 ^ k + v mod 256 ^ k"
    by (simp only: Uint32_foldl u Suc length_bigEndian)
  also have "\<dots> = v mod (256 ^ k * 256)"
  proof -
    have "v mod (256 ^ k * 256) = 256 ^ k * (v div 256 ^ k mod 256) + v mod 256 ^ k"
      by (rule zmod_zmult2_eq) simp
    then show ?thesis by (simp add: mult.commute)
  qed
  finally show ?case by (simp add: mult.commute)
qed

lemma Uint32_PutUint32:
  assumes "n < 2 ^ 32"
  shows "Uint32 (PutUint32 (int n)) = int n"
proof -
  have "int n < 2 ^ 32" using assms by (metis of_nat_less_iff of_nat_numeral of_nat_power)
  then have m: "int n mod 2 ^ 32 = int n" by simp
  have "Uint32 (PutUint32 (int n)) = (int n mod 2 ^ 32) mod 256 ^ 4"
    by (simp only: PutUint32_def Uint32_bigEndian)
  then show ?thesis using m by simp
qed

lemma length_PutUint32 [simp]: "length (PutUint32 v) = 4"
  by (simp add: PutUint32_def)

lemma bitsOfBytes_concat: "bitsOfBytes (concat xss) = concat (map bitsOfBytes xss)"
  by (induction xss) (simp_all add: bitsOfBytes_append, simp add: bitsOfBytes_def)

lemma elem_fits:
  assumes rng: "\<forall>x\<in>set d. 0 \<le> x \<and> x < 2 ^ bpw" and fit: "bpw * W \<le> 8 * B"
  shows "0 \<le> bigval (2 ^ bpw) (chunk d W i) \<and> bigval (2 ^ bpw) (chunk d W i) < 256 ^ B"
proof -
  let ?c = "chunk d W i"
  have r: "\<forall>x\<in>set ?c. 0 \<le> x \<and> x < (2::int) ^ bpw" using rng set_chunk by blast
  have b: "0 \<le> bigval (2 ^ bpw) ?c \<and> bigval (2 ^ bpw) ?c < (2 ^ bpw) ^ length ?c"
    using r by (intro bigval_bound) simp_all
  have "length ?c \<le> W" by (simp add: length_chunk)
  then have "bpw * length ?c \<le> 8 * B" using fit
    by (meson le_trans mult_le_mono2)
  then have "(2::int) ^ (bpw * length ?c) \<le> 2 ^ (8 * B)" by (intro power_increasing) simp_all
  moreover have "((2::int) ^ bpw) ^ length ?c = 2 ^ (bpw * length ?c)" by (simp add: power_mult)
  moreover have "(2::int) ^ (8 * B) = 256 ^ B" by (simp add: power_mult)
  ultimately show ?thesis using b by linarith
qed

text \<open>
  Within the range of the skip counter the round trip holds: when the group of the last
  element may lack at most 255 bits, \<open>(W - 1) * bpw < 256\<close>, \<open>ReadBytes\<close> restores the
  symbols that \<open>FillBytes\<close> wrote, whatever the stream held before.
\<close>

lemma FillBytes_ReadBytes_roundtrip:
  fixes s :: Stream and bpw W B E :: nat
  assumes pow: "NbSymbs s = 2 ^ bpw" and b1: "1 \<le> bpw" and b62: "bpw \<le> 62"
    and rng: "\<forall>x\<in>set (D s). 0 \<le> x \<and> x < NbSymbs s"
    and fit: "int bpw < nbBits"
    and len: "length (D s) < 2 ^ 32"
    and W: "W = nat ((nbBits - 1) div int bpw)"
    and B: "B = nat ((nbBits + 7) div 8)"
    and E: "E = (length (D s) + W - 1) div W"
    and room: "4 + E * B \<le> length dst"
    and skip: "(W - 1) * bpw < 256"
  shows "\<exists>dst'. FillBytes s dst nbBits = Some (Inr dst')
           \<and> ReadBytes \<lparr>D = d, NbSymbs = NbSymbs s\<rparr> dst' nbBits
               = Some (Inr \<lparr>D = D s, NbSymbs = NbSymbs s\<rparr>)"
proof -
  let ?n = "length (D s)"
  let ?r = "(2::int) ^ bpw"
  have bl: "bitLen (NbSymbs s) = Some bpw" unfolding pow using b62 by (rule bitLen_power_of_two)
  have bp: "0 < int bpw" using b1 by simp
  have wq: "0 < (nbBits - 1) div int bpw" using fit bp by (simp add: pos_imp_zdiv_pos_iff)
  then have iW: "int W = (nbBits - 1) div int bpw" and Wpos: "0 < W" unfolding W by simp_all
  have nb: "0 < nbBits" using fit by simp
  then have bq: "0 \<le> (nbBits + 7) div 8" by simp
  then have iB: "int B = (nbBits + 7) div 8" unfolding B by simp
  have tw: "tdiv (nbBits - 1) (int bpw) = int W"
    using fit bp by (simp add: tdiv_nonneg iW)
  have tb: "tdiv (nbBits + 7) 8 = int B" using nb by (simp add: tdiv_nonneg iB)
  have iE: "int E = (int ?n + int W - 1) div int W"
  proof -
    have "int (?n + W - 1) = int ?n + int W - 1" using Wpos by (simp add: of_nat_diff)
    then show ?thesis unfolding E by (simp only: zdiv_int)
  qed
  have te: "tdiv (int ?n + int W - 1) (int W) = int E"
    using Wpos by (simp add: tdiv_nonneg iE)
  have lo: "int bpw * int W \<le> nbBits - 1"
  proof -
    have "0 \<le> (nbBits - 1) mod int bpw" using bp by simp
    moreover have "nbBits - 1 = int bpw * ((nbBits - 1) div int bpw) + (nbBits - 1) mod int bpw"
      by simp
    ultimately show ?thesis unfolding iW by linarith
  qed
  have hi: "nbBits - 1 < int bpw * int W + int bpw"
  proof -
    have "(nbBits - 1) mod int bpw < int bpw" using bp by simp
    moreover have "nbBits - 1 = int bpw * ((nbBits - 1) div int bpw) + (nbBits - 1) mod int bpw"
      by simp
    ultimately show ?thesis unfolding iW by linarith
  qed
  have b8l: "nbBits \<le> 8 * int B" unfolding iB by linarith
  have b8h: "8 * int B \<le> nbBits + 7" unfolding iB by linarith
  have fitI: "int (bpw * W) \<le> int (8 * B)" using lo b8l by simp
  then have fitN: "bpw * W \<le> 8 * B" by (simp only: of_nat_le_iff)
  have padN: "8 * B - bpw * W < 256"
  proof -
    have "int (8 * B) - int (bpw * W) < 256" using hi b8h b62 by simp
    then show ?thesis using fitN by linarith
  qed
  have up: "?n \<le> E * W" unfolding E using Wpos by (rule ceil_div_upper)
  have rng2: "\<forall>x\<in>set (D s). 0 \<le> x \<and> x < ?r" using rng pow by simp
  have elem: "FillBytes_elem (D s) (int W) ?r (int i) = bigval ?r (chunk (D s) W i)" for i
    using Wpos by (rule FillBytes_elem_chunk)
  have ef: "0 \<le> bigval ?r (chunk (D s) W i) \<and> bigval ?r (chunk (D s) W i) < 256 ^ B" for i
    using rng2 fitN by (rule elem_fits)
  have fitsE: "\<forall>i<E. \<bar>FillBytes_elem (D s) (int W) ?r (int i)\<bar> < 256 ^ B"
    using ef by (simp add: elem)
  have roomE: "E * B \<le> length (drop 4 dst)" using room by simp
  define body where "body = concat (map (\<lambda>i. bigEndian (bigval ?r (chunk (D s) W i)) B) [0..<E])"
  define tailb where "tailb = drop (E * B) (drop 4 dst)"
  define dst' where "dst' = PutUint32 (int ?n) @ body @ tailb"
  have loopF: "FillBytes_loop (D s) (int W) (int B) ?r (map int [0..<E]) (drop 4 dst)
      = Inr (body @ tailb)"
  proof -
    have "FillBytes_loop (D s) (int W) (int B) ?r (map int [0..<E]) (drop 4 dst)
        = Inr (take (0 * B) (drop 4 dst)
               @ concat (map (\<lambda>i. bigEndian \<bar>FillBytes_elem (D s) (int W) ?r (int i)\<bar> B) [0..<E])
               @ drop (E * B) (drop 4 dst))"
      using roomE fitsE by (intro FillBytes_loop_result) simp_all
    moreover have "\<bar>FillBytes_elem (D s) (int W) ?r (int i)\<bar> = bigval ?r (chunk (D s) W i)" for i
      using ef [of i] by (simp add: elem)
    ultimately show ?thesis unfolding body_def tailb_def by simp
  qed
  have roomchk: "\<not> int (length dst) < tdiv (int ?n * int bpw + 7) 8 + 4"
  proof -
    have "int ?n \<le> int (E * W)" using up by (simp only: of_nat_le_iff)
    then have "int ?n * int bpw \<le> int (E * W) * int bpw"
      by (rule mult_right_mono) simp
    also have "\<dots> = int E * int (bpw * W)" by (simp add: algebra_simps)
    also have "\<dots> \<le> int E * int (8 * B)" using fitI by (intro mult_left_mono) simp_all
    finally have "int ?n * int bpw + 7 \<le> 8 * int (E * B) + 7" by (simp add: algebra_simps)
    then have "(int ?n * int bpw + 7) div 8 \<le> (8 * int (E * B) + 7) div 8"
      by (rule zdiv_mono1) simp
    also have "\<dots> = int (E * B)" by simp
    finally have "(int ?n * int bpw + 7) div 8 + 4 \<le> int (4 + E * B)" by simp
    also have "\<dots> \<le> int (length dst)" using room by (simp only: of_nat_le_iff)
    finally have "(int ?n * int bpw + 7) div 8 + 4 \<le> int (length dst)" .
    moreover have "tdiv (int ?n * int bpw + 7) 8 = (int ?n * int bpw + 7) div 8"
      by (simp add: tdiv_nonneg)
    ultimately show ?thesis by simp
  qed
  have uptoE: "[0 .. int E - 1] = map int [0..<E]" by (rule upto_map_int)
  have F: "FillBytes s dst nbBits = Some (Inr dst')"
    using fit bp Wpos roomchk
    by (simp add: FillBytes_def bl Let_def tw tb te uptoE loopF dst'_def)
  have sh: "NbSymbs s = shl1 bpw" unfolding pow using b62 by (intro shl1_small [symmetric]) simp
  have bl3: "bitLen (shl1 bpw) = Some bpw" using bl sh by simp
  have sl: "slice dst' 0 4 = Inr (PutUint32 (int ?n))" by (simp add: slice_def dst'_def)
  have u32: "Uint32 (PutUint32 (int ?n)) = int ?n" using len by (rule Uint32_PutUint32)
  let ?d1 = "resize d (int ?n)"
  have ld1: "length ?d1 = ?n" by (simp add: resize_def)
  have dr4: "drop 4 dst' = body @ tailb" by (simp add: dst'_def)
  have lbody: "length body = E * B"
    by (simp add: body_def length_concat comp_def sum_list_triv)
  have enough: "\<not> int (length (body @ tailb)) < int E * int B"
  proof -
    have "int E * int B = int (E * B)" by simp
    then show ?thesis using lbody by simp
  qed
  have eb: "elemBits (D s) bpw W B = (\<lambda>i. bitsOf (bigval ?r (chunk (D s) W i)) (8 * B))"
    by (rule ext) (simp add: elemBits_def)
  have bits: "bitsOfBytes (body @ tailb)
      = concat (map (elemBits (D s) bpw W B) [0..<E]) @ bitsOfBytes tailb"
    by (simp add: body_def bitsOfBytes_append bitsOfBytes_concat comp_def bitsOfBytes_bigEndian eb)
  have loopR: "ReadBytes_loop (int bpw) (int W) (int B) (int E) (map int [0..<E]) ?d1
           \<lparr>rbits = concat (map (elemBits (D s) bpw W B) [0..<E]) @ bitsOfBytes tailb,
              TryError = False\<rparr>
         = (take (0 * W) ?d1 @ drop (0 * W) (D s),
            \<lparr>rbits = bitsOfBytes tailb, TryError = False\<rparr>)"
    using Wpos b62 rng2 fitN padN skip E ld1 by (intro ReadBytes_loop_restores) simp_all
  have R: "ReadBytes \<lparr>D = d, NbSymbs = NbSymbs s\<rparr> dst' nbBits
       = Some (Inr \<lparr>D = D s, NbSymbs = NbSymbs s\<rparr>)"
    using fit bp Wpos enough sh
    by (simp add: ReadBytes_def bl3 Let_def sl u32 dr4 tw tb te ld1 uptoE NewReader_def
        bits loopR del: length_append)
  from F R show ?thesis by blast
qed

lemma FillBytes_ReadBytes_roundtrip_example:
  "\<exists>dst'. FillBytes \<lparr>D = [1, 2, 3], NbSymbs = 4\<rparr> (replicate 6 0) 5 = Some (Inr dst')
     \<and> ReadBytes \<lparr>D = [], NbSymbs = 4\<rparr> dst' 5 = Some (Inr \<lparr>D = [1, 2, 3], NbSymbs = 4\<rparr>)"
  using FillBytes_ReadBytes_roundtrip [where s = "\<lparr>D = [1, 2, 3], NbSymbs = 4\<rparr>" and bpw = 2
      and nbBits = 5 and W = 2 and B = 1 and E = 2 and dst = "replicate 6 0" and d = "[]"]
  by simp

section \<open>Properties of the compressor\<close>

subsection \<open>Errors and panics\<close>

lemma slice_Inl: "slice xs lo hi = Inl e \<Longrightarrow> e = PanicSliceBounds"
  by (auto simp: slice_def split: if_splits)


lemma findBackRef_Inl: "findBackRef lk c data i t m = Inl e \<Longrightarrow> e = PanicSliceBounds"
  by (auto simp: findBackRef_def Let_def split: if_splits sum.splits dest: slice_Inl)

lemma fillBackrefs_Inl: "fillBackrefs lk c T input i m = Inl e \<Longrightarrow> e = PanicSliceBounds"
  by (auto simp: fillBackrefs_def split: prod.splits sum.splits dest: findBackRef_Inl)

lemma fillBackrefs_not_panic [simp]:
  "fillBackrefs lk c T input i m \<noteq> Inl PanicCannotEncodeSymbol"
  using fillBackrefs_Inl by fastforce















subsection \<open>The fallback and the size of the output\<close>

text \<open>
  Claim C4. For an accepted input and a level other than \<open>NoCompression\<close>: when the
  buffer, after the bit writer is closed, holds at least \<open>len(input) + bitLen/8 =
  len(input) + 2\<close> bytes, \<open>Compress\<close> returns the two header bytes with \<open>Level = 0\<close>
  followed by the input; and every output that \<open>Compress\<close> returns without error has at
  most \<open>len(input) + 2\<close> bytes.
\<close>

theorem Compress_fallback_and_bound:
  "(int (length input) \<le> MaxInputSize K \<and> level c \<noteq> NoCompression
      \<and> compressBuffer lk K c fuel input hints = Some (Inr buf)
      \<and> length buf \<ge> length input + 2
    \<longrightarrow> Compress lk K c fuel input hints = Some (Inr ([Version K, NoCompression] @ input)))
   \<and> (Compress lk K c fuel input hints = Some (Inr out) \<longrightarrow> length out \<le> length input + 2)"
  by (auto simp: Compress_def Let_def Header_WriteTo_def bitLen_lzss_def
      split: sum.splits option.splits if_splits)

theorem Compress_fallback_and_bound_witness:
  "int (length [1, 2, 3 :: byte]) \<le> MaxInputSize K0 \<and> level exCompressorNoDict \<noteq> NoCompression
   \<and> compressBuffer LookupLongest K0 exCompressorNoDict 3 [1, 2, 3] [] = Some (Inr [0, 8, 1, 2, 3])
   \<and> length [0, 8, 1, 2, 3 :: byte] \<ge> length [1, 2, 3 :: byte] + 2
   \<and> Compress LookupLongest K0 exCompressorNoDict 3 [1, 2, 3] [] = Some (Inr [0, 0, 1, 2, 3])
   \<and> length [0, 0, 1, 2, 3 :: byte] \<le> length [1, 2, 3 :: byte] + 2"
proof -
  have a: "int (length [1, 2, 3 :: byte]) \<le> MaxInputSize K0" by (simp add: K0_def)
  have b: "level exCompressorNoDict \<noteq> NoCompression"
    by (simp add: exCompressorNoDict_def NoCompression_def)
  have c: "compressBuffer LookupLongest K0 exCompressorNoDict 3 [1, 2, 3] [] = Some (Inr [0, 8, 1, 2, 3])"
    by code_simp
  have d: "length [0, 8, 1, 2, 3 :: byte] \<ge> length [1, 2, 3 :: byte] + 2" by simp
  have v: "[Version K0, NoCompression] @ [1, 2, 3] = [0, 0, 1, 2, 3]"
    by (simp add: K0_def NoCompression_def)
  note t = Compress_fallback_and_bound [of "[1, 2, 3]" K0 exCompressorNoDict LookupLongest 3 "[]"
      "[0, 8, 1, 2, 3]" "[0, 0, 1, 2, 3]"]
  from t a b c d have r: "Compress LookupLongest K0 exCompressorNoDict 3 [1, 2, 3] [] = Some (Inr [0, 0, 1, 2, 3])"
    unfolding v by blast
  with t have "length [0, 0, 1, 2, 3 :: byte] \<le> length [1, 2, 3 :: byte] + 2" by blast
  with a b c d r show ?thesis by blast
qed

subsection \<open>Hints\<close>

lemma compressFromHint_rejected:
  assumes "hintHeaderRejected K c hint"
  shows "compressFromHint K c \<lparr>hVersion = Version K, hLevel = level c\<rparr> input hint bw = Inr (0, bw)"
  using assms
  by (auto simp: hintHeaderRejected_def compressFromHint_def Let_def split: sum.splits prod.splits)

lemma compressBuffer_rejected:
  assumes "hintHeaderRejected K c hint"
  shows "compressBuffer lk K c fuel input [hint] = compressBuffer lk K c fuel input []"
  using compressFromHint_rejected [OF assms]
  by (simp add: compressBuffer_def Let_def)

lemma Compress_rejected:
  assumes "hintHeaderRejected K c hint"
  shows "Compress lk K c fuel input [hint] = Compress lk K c fuel input []"
  using compressBuffer_rejected [OF assms]
  by (simp add: Compress_def Let_def)

text \<open>
  Claim C10. When the hint fails header validation (its header cannot be read, its
  version or level differs from the compressor's, or its level is \<open>NoCompression\<close>),
  \<open>compressFromHint\<close> returns \<open>startI = 0\<close> and the bit writer as it received it, and
  \<open>Compress(input, hint)\<close> returns what \<open>Compress(input)\<close> returns.
\<close>

theorem rejected_hint_is_ignored:
  assumes "hintHeaderRejected K c hint"
  shows "compressFromHint K c \<lparr>hVersion = Version K, hLevel = level c\<rparr> input hint bw = Inr (0, bw)
       \<and> Compress lk K c fuel input [hint] = Compress lk K c fuel input []"
  using compressFromHint_rejected [OF assms] Compress_rejected [OF assms] by simp

theorem rejected_hint_is_ignored_witness:
  "hintHeaderRejected K0 exCompressor [0, 4, 1, 2, 3]
   \<and> compressFromHint K0 exCompressor \<lparr>hVersion = Version K0, hLevel = level exCompressor\<rparr>
        [1, 2, 3, 4, 5] [0, 4, 1, 2, 3] [] = Inr (0, [])
   \<and> Compress LookupLongest K0 exCompressor 5 [1, 2, 3, 4, 5] [[0, 4, 1, 2, 3]]
       = Compress LookupLongest K0 exCompressor 5 [1, 2, 3, 4, 5] []"
proof -
  have h: "hintHeaderRejected K0 exCompressor [0, 4, 1, 2, 3]" by code_simp
  from rejected_hint_is_ignored [OF h] h show ?thesis by blast
qed

lemma NewCompressor_exCompressor: "NewCompressor K0 [1, 2, 3, 4, 5, 6, 7, 8] 8 = Inr exCompressor"
  by code_simp

lemma NewCompressor_exCompressorNoDict: "NewCompressor K0 [] 8 = Inr exCompressorNoDict"
  by code_simp

lemma TryReadByte_bitsOfBytes:
  "TryReadByte \<lparr>rbits = bitsOfBytes (b # bs), TryError = False\<rparr>
     = (b, \<lparr>rbits = bitsOfBytes bs, TryError = False\<rparr>)"
proof -
  have "valOf (bitsOf (uint b) 8) mod 18446744073709551616 = valOf (bitsOf (uint b) 8)"
    by (simp add: valOf_bitsOf take_bit_eq_mod)
  then show ?thesis
    by (simp add: TryReadByte_def TryReadBits_def bitsOfBytes_def valOf_bitsOf_byte)
qed

lemma Header_ReadFrom_bytes:
  "Header_ReadFrom (NewReader (v # l # rest))
     = Inr (\<lparr>hVersion = v, hLevel = l\<rparr>, \<lparr>rbits = bitsOfBytes rest, TryError = False\<rparr>)"
  by (simp add: Header_ReadFrom_def NewReader_def TryReadByte_bitsOfBytes)







subsection \<open>Decoding\<close>

text \<open>The no-compression output, of the level or of the fallback, decodes to the input.\<close>

lemma Decompress_uncompressed:
  "Decompress K dict (Header_WriteTo \<lparr>hVersion = v, hLevel = NoCompression\<rparr> [] @ input) = Inr input"
  by (simp add: Decompress_def Header_WriteTo_def Header_ReadFrom_bytes Let_def)


end
